theory Spec2Isabelle
  imports Main "HOL-Library.List_Lexorder" "HOL-Library.AList" "HOL-Library.Multiset"
begin

section \<open>Python strings\<close>

text \<open>
  A Python \<open>str\<close> is a sequence of Unicode code points, and \<open>len\<close> counts code points.
  A code point is a natural number here; \<open>u\<close> turns an ASCII literal into such a string.
\<close>

type_synonym uchar = nat
type_synonym ustring = "nat list"

definition u :: "string \<Rightarrow> ustring" where
  "u s = map of_char s"

text \<open>
  \<open>str.isspace\<close>, \<open>str.strip()\<close>, \<open>str.split()\<close> and the regular expression class
  \<open>\s\<close> share one table of whitespace code points: U+0009..U+000D, U+001C..U+0020,
  U+0085, U+00A0, U+1680, U+2000..U+200A, U+2028, U+2029, U+202F, U+205F, U+3000.
\<close>

definition isspace :: "uchar \<Rightarrow> bool" where
  "isspace c = ((9 \<le> c \<and> c \<le> 13) \<or> (28 \<le> c \<and> c \<le> 32) \<or> c = 133 \<or> c = 160 \<or> c = 5760
     \<or> (8192 \<le> c \<and> c \<le> 8202) \<or> c = 8232 \<or> c = 8233 \<or> c = 8239 \<or> c = 8287 \<or> c = 12288)"

text \<open>
  What the Python runtime decides outside the repository is a parameter of the model:
  the Unicode character database beyond ASCII (letters, digits, lower-casing and the
  case-insensitive equivalents of a code point), the iteration order of a \<open>set\<close>
  (which depends on string hashing), and the floating-point comparison
  \<open>n > max_length * 0.7\<close> of the fallback summary. On ASCII the tables are fixed below.
\<close>

record pyrt =
  ext_alnum :: "uchar \<Rightarrow> bool"
  ext_alpha :: "uchar \<Rightarrow> bool"
  ext_isdigit :: "uchar \<Rightarrow> bool"
  ext_decimal :: "uchar \<Rightarrow> bool"
  ext_lower :: "ustring \<Rightarrow> ustring"
  ext_icase :: "uchar \<Rightarrow> uchar list"
  set_rank :: "ustring list \<Rightarrow> ustring \<Rightarrow> nat"
  float_gt70 :: "nat \<Rightarrow> int \<Rightarrow> bool"

definition ascii_upper :: "uchar \<Rightarrow> bool" where
  "ascii_upper c = (65 \<le> c \<and> c \<le> 90)"

definition ascii_lower :: "uchar \<Rightarrow> bool" where
  "ascii_lower c = (97 \<le> c \<and> c \<le> 122)"

definition ascii_digit :: "uchar \<Rightarrow> bool" where
  "ascii_digit c = (48 \<le> c \<and> c \<le> 57)"

definition isalpha :: "pyrt \<Rightarrow> uchar \<Rightarrow> bool" where
  "isalpha rt c = (if c < 128 then ascii_upper c \<or> ascii_lower c else ext_alpha rt c)"

definition isalnum :: "pyrt \<Rightarrow> uchar \<Rightarrow> bool" where
  "isalnum rt c =
     (if c < 128 then ascii_upper c \<or> ascii_lower c \<or> ascii_digit c else ext_alnum rt c)"

text \<open>\<open>c.isdigit()\<close> for one character, and \<open>s.isdigit()\<close>: non-empty and all digits.\<close>

definition isdigit_char :: "pyrt \<Rightarrow> uchar \<Rightarrow> bool" where
  "isdigit_char rt c = (if c < 128 then ascii_digit c else ext_isdigit rt c)"

definition isdigit :: "pyrt \<Rightarrow> ustring \<Rightarrow> bool" where
  "isdigit rt s = (s \<noteq> [] \<and> list_all (isdigit_char rt) s)"

text \<open>The classes \<open>\d\<close> (decimal digits) and \<open>\w\<close> (alphanumeric or underscore).\<close>

definition re_digit :: "pyrt \<Rightarrow> uchar \<Rightarrow> bool" where
  "re_digit rt c = (if c < 128 then ascii_digit c else ext_decimal rt c)"

definition re_word :: "pyrt \<Rightarrow> uchar \<Rightarrow> bool" where
  "re_word rt c = (isalnum rt c \<or> c = 95)"

text \<open>\<open>s.lower()\<close>: on an ASCII string, the upper-case letters move by 32.\<close>

definition lower_char :: "uchar \<Rightarrow> uchar" where
  "lower_char c = (if ascii_upper c then c + 32 else c)"

definition lower :: "pyrt \<Rightarrow> ustring \<Rightarrow> ustring" where
  "lower rt s = (if list_all (\<lambda>c. c < 128) s then map lower_char s else ext_lower rt s)"

text \<open>\<open>s.strip()\<close>, \<open>s.split()\<close>, \<open>s.split(d)\<close> for a one-character \<open>d\<close>, and \<open>sep.join(xs)\<close>.\<close>

definition strip :: "ustring \<Rightarrow> ustring" where
  "strip s = rev (dropWhile isspace (rev (dropWhile isspace s)))"

fun words_acc :: "ustring \<Rightarrow> ustring \<Rightarrow> ustring list" where
  "words_acc cur [] = (if cur = [] then [] else [rev cur])"
| "words_acc cur (c # cs) =
     (if isspace c then (if cur = [] then words_acc [] cs else rev cur # words_acc [] cs)
      else words_acc (c # cur) cs)"

definition split_ws :: "ustring \<Rightarrow> ustring list" where
  "split_ws s = words_acc [] s"

fun split_acc :: "uchar \<Rightarrow> ustring \<Rightarrow> ustring \<Rightarrow> ustring list" where
  "split_acc d cur [] = [rev cur]"
| "split_acc d cur (c # cs) =
     (if c = d then rev cur # split_acc d [] cs else split_acc d (c # cur) cs)"

definition split_char :: "uchar \<Rightarrow> ustring \<Rightarrow> ustring list" where
  "split_char d s = split_acc d [] s"

fun join :: "ustring \<Rightarrow> ustring list \<Rightarrow> ustring" where
  "join sep [] = []"
| "join sep [x] = x"
| "join sep (x # y # ys) = x @ sep @ join sep (y # ys)"

text \<open>
  \<open>s.find(sub)\<close>: the lowest index where \<open>sub\<close> starts, or \<open>-1\<close>; \<open>sub in s\<close> for strings;
  \<open>s.replace(a, b)\<close> for one-character \<open>a\<close> and \<open>b\<close>.
\<close>

definition starts_with :: "ustring \<Rightarrow> ustring \<Rightarrow> bool" where
  "starts_with p s = (take (length p) s = p)"

fun find_from :: "nat \<Rightarrow> ustring \<Rightarrow> ustring \<Rightarrow> int" where
  "find_from i sub [] = (if sub = [] then int i else - 1)"
| "find_from i sub (c # cs) =
     (if starts_with sub (c # cs) then int i else find_from (Suc i) sub cs)"

definition find :: "ustring \<Rightarrow> ustring \<Rightarrow> int" where
  "find s sub = find_from 0 sub s"

definition contains :: "ustring \<Rightarrow> ustring \<Rightarrow> bool" where
  "contains sub s = (find s sub \<noteq> - 1)"

definition replace_char :: "uchar \<Rightarrow> uchar \<Rightarrow> ustring \<Rightarrow> ustring" where
  "replace_char a b s = map (\<lambda>c. if c = a then b else c) s"

text \<open>
  Slices \<open>s[i:j]\<close>, \<open>s[:j]\<close> and \<open>s[i:]\<close> with integer bounds: a negative bound counts
  from the end, and every bound is clamped to \<open>[0, len(s)]\<close>; a slice never raises.
\<close>

definition slice_index :: "'a list \<Rightarrow> int \<Rightarrow> nat" where
  "slice_index s i = (if i < 0 then nat (int (length s) + i) else min (nat i) (length s))"

definition slice :: "'a list \<Rightarrow> int \<Rightarrow> int \<Rightarrow> 'a list" where
  "slice s i j = take (slice_index s j - slice_index s i) (drop (slice_index s i) s)"

definition slice_to :: "'a list \<Rightarrow> int \<Rightarrow> 'a list" where
  "slice_to s j = take (slice_index s j) s"

text \<open>
  \<open>xs.sort(key=f, reverse=True)\<close> is stable: the list is reversed, sorted stably in
  ascending order, and reversed again.
\<close>

definition sort_desc :: "('a \<Rightarrow> 'k::linorder) \<Rightarrow> 'a list \<Rightarrow> 'a list" where
  "sort_desc f xs = rev (sort_key f (rev xs))"

text \<open>
  A \<open>set\<close> of strings is kept as the list of its elements in insertion order;
  \<open>list(s)\<close> enumerates it in the order the runtime's hashing gives, some permutation.
\<close>

definition set_add :: "ustring \<Rightarrow> ustring list \<Rightarrow> ustring list" where
  "set_add x xs = (if x \<in> set xs then xs else xs @ [x])"

definition list_of_set :: "pyrt \<Rightarrow> ustring list \<Rightarrow> ustring list" where
  "list_of_set rt xs = sort_key (set_rank rt xs) xs"

section \<open>Regular expressions\<close>

text \<open>
  The \<open>re\<close> module is a backtracking matcher. A pattern is a term of \<open>regex\<close>; a match
  state is the character before the current position (for \<open>\b\<close> and \<open>^\<close>) and the rest
  of the subject. \<open>rmatch r st\<close> lists the states in which a match of \<open>r\<close> from \<open>st\<close> can
  end, in the order backtracking tries them: the head is the match \<open>re\<close> reports.
  A repetition makes progress in every round (its fuel is the length of the rest).
\<close>

type_synonym mstate = "uchar option \<times> ustring"

datatype regex =
    Cls "uchar \<Rightarrow> bool"
  | Eps
  | Seq regex regex
  | Alt regex regex
  | Star regex
  | LazyStar regex
  | Look "uchar option \<Rightarrow> ustring \<Rightarrow> bool"

fun star_greedy :: "nat \<Rightarrow> (mstate \<Rightarrow> mstate list) \<Rightarrow> mstate \<Rightarrow> mstate list" where
  "star_greedy 0 f st = [st]"
| "star_greedy (Suc n) f st =
     concat (map (star_greedy n f)
       (filter (\<lambda>st'. length (snd st') < length (snd st)) (f st))) @ [st]"

fun star_lazy :: "nat \<Rightarrow> (mstate \<Rightarrow> mstate list) \<Rightarrow> mstate \<Rightarrow> mstate list" where
  "star_lazy 0 f st = [st]"
| "star_lazy (Suc n) f st =
     st # concat (map (star_lazy n f)
       (filter (\<lambda>st'. length (snd st') < length (snd st)) (f st)))"

fun rmatch :: "regex \<Rightarrow> mstate \<Rightarrow> mstate list" where
  "rmatch (Cls p) st =
     (case snd st of [] \<Rightarrow> [] | c # cs \<Rightarrow> if p c then [(Some c, cs)] else [])"
| "rmatch Eps st = [st]"
| "rmatch (Seq a b) st = concat (map (rmatch b) (rmatch a st))"
| "rmatch (Alt a b) st = rmatch a st @ rmatch b st"
| "rmatch (Star a) st = star_greedy (length (snd st)) (rmatch a) st"
| "rmatch (LazyStar a) st = star_lazy (length (snd st)) (rmatch a) st"
| "rmatch (Look p) st = (if p (fst st) (snd st) then [st] else [])"

text \<open>Derived forms: \<open>r+\<close>, \<open>r+?\<close>, \<open>r?\<close>, a sequence, an alternation, \<open>r{n}\<close>, \<open>r{m,n}\<close>.\<close>

definition Plus :: "regex \<Rightarrow> regex" where
  "Plus r = Seq r (Star r)"

definition LazyPlus :: "regex \<Rightarrow> regex" where
  "LazyPlus r = Seq r (LazyStar r)"

definition Opt :: "regex \<Rightarrow> regex" where
  "Opt r = Alt r Eps"

fun Seqs :: "regex list \<Rightarrow> regex" where
  "Seqs [] = Eps"
| "Seqs [r] = r"
| "Seqs (r # rs) = Seq r (Seqs rs)"

fun Alts :: "regex list \<Rightarrow> regex" where
  "Alts [] = Cls (\<lambda>c. False)"
| "Alts [r] = r"
| "Alts (r # rs) = Alt r (Alts rs)"

definition Rep :: "nat \<Rightarrow> regex \<Rightarrow> regex" where
  "Rep n r = Seqs (replicate n r)"

fun OptRep :: "nat \<Rightarrow> regex \<Rightarrow> regex" where
  "OptRep 0 r = Eps"
| "OptRep (Suc k) r = Opt (Seq r (OptRep k r))"

definition RepRange :: "nat \<Rightarrow> nat \<Rightarrow> regex \<Rightarrow> regex" where
  "RepRange m n r = Seq (Rep m r) (OptRep (n - m) r)"

text \<open>
  Literals. Under \<open>re.IGNORECASE\<close> a character matches a literal or a range when it or
  one of its case-insensitive equivalents does. The equivalents of an ASCII letter are
  the letter of the other case and, for \<open>i\<close>, \<open>s\<close> and \<open>k\<close>, the code points U+0130 and
  U+0131, U+017F, U+212A; those of other code points come from the runtime.
\<close>

definition case_variants :: "pyrt \<Rightarrow> uchar \<Rightarrow> uchar list" where
  "case_variants rt c =
     (if ascii_upper c then
        (c + 32) # (if c = 73 then [304, 305] else if c = 83 then [383]
                    else if c = 75 then [8490] else [])
      else if ascii_lower c then
        (c - 32) # (if c = 105 then [304, 305] else if c = 115 then [383]
                    else if c = 107 then [8490] else [])
      else if c < 128 then []
      else ext_icase rt c)"

definition ci :: "pyrt \<Rightarrow> (uchar \<Rightarrow> bool) \<Rightarrow> uchar \<Rightarrow> bool" where
  "ci rt p c = (p c \<or> list_ex p (case_variants rt c))"

definition Chr :: "uchar \<Rightarrow> regex" where
  "Chr a = Cls (\<lambda>c. c = a)"

definition Str :: "ustring \<Rightarrow> regex" where
  "Str s = Seqs (map Chr s)"

definition ChrI :: "pyrt \<Rightarrow> uchar \<Rightarrow> regex" where
  "ChrI rt a = Cls (ci rt (\<lambda>c. c = a))"

definition StrI :: "pyrt \<Rightarrow> ustring \<Rightarrow> regex" where
  "StrI rt s = Seqs (map (ChrI rt) s)"

text \<open>
  Zero-width assertions: \<open>\b\<close> (exactly one of the two neighbours is a word character),
  \<open>^\<close> and \<open>$\<close> without \<open>re.MULTILINE\<close> (\<open>$\<close> also matches before a final newline).
\<close>

definition word_before :: "pyrt \<Rightarrow> uchar option \<Rightarrow> bool" where
  "word_before rt pv = (case pv of None \<Rightarrow> False | Some c \<Rightarrow> re_word rt c)"

definition word_after :: "pyrt \<Rightarrow> ustring \<Rightarrow> bool" where
  "word_after rt s = (case s of [] \<Rightarrow> False | c # cs \<Rightarrow> re_word rt c)"

definition Boundary :: "pyrt \<Rightarrow> regex" where
  "Boundary rt = Look (\<lambda>pv s. word_before rt pv \<noteq> word_after rt s)"

definition Bos :: regex where
  "Bos = Look (\<lambda>pv s. pv = None)"

definition Eos :: regex where
  "Eos = Look (\<lambda>pv s. s = [] \<or> s = [10])"

text \<open>
  Scanning, as \<open>finditer\<close> does it: at each position from the left the head of
  \<open>rmatch\<close> is the match, and the scan goes on after it. A matcher gives the length of
  the match and a payload (the matched text, or the text of a group). The result lists
  the unmatched characters (\<open>Inl\<close>) and the payloads of the matches (\<open>Inr\<close>) in order;
  \<open>k\<close> counts the characters still inside the last match. No pattern of the repository
  matches the empty string; an empty match is recorded and the scan moves on by one
  character.
\<close>

type_synonym 'a matcher = "uchar option \<Rightarrow> ustring \<Rightarrow> (nat \<times> 'a) option"

definition match_at :: "regex \<Rightarrow> ustring matcher" where
  "match_at r pv s =
     (case rmatch r (pv, s) of
        [] \<Rightarrow> None
      | st # _ \<Rightarrow> Some (length s - length (snd st), take (length s - length (snd st)) s))"

text \<open>
  A pattern \<open>pre(grp)post\<close> with one group: \<open>findall\<close> returns the text of the group in
  the first match of the whole pattern.
\<close>

definition group_at :: "regex \<Rightarrow> regex \<Rightarrow> regex \<Rightarrow> ustring matcher" where
  "group_at pre grp post pv s =
     (case concat (map (\<lambda>s1. concat (map (\<lambda>s2. map (\<lambda>s3. (s1, s2, s3)) (rmatch post s2))
                                        (rmatch grp s1)))
                       (rmatch pre (pv, s))) of
        [] \<Rightarrow> None
      | (s1, s2, s3) # _ \<Rightarrow>
          Some (length s - length (snd s3),
                take (length (snd s1) - length (snd s2)) (snd s1)))"

fun scan :: "'a matcher \<Rightarrow> nat \<Rightarrow> uchar option \<Rightarrow> ustring \<Rightarrow> (uchar + 'a) list" where
  "scan mf k pv [] =
     (if k = 0 then (case mf pv [] of None \<Rightarrow> [] | Some (n, a) \<Rightarrow> [Inr a]) else [])"
| "scan mf k pv (c # cs) =
     (if 0 < k then scan mf (k - 1) (Some c) cs
      else (case mf pv (c # cs) of
              None \<Rightarrow> Inl c # scan mf 0 (Some c) cs
            | Some (n, a) \<Rightarrow>
                if n = 0 then Inr a # Inl c # scan mf 0 (Some c) cs
                else Inr a # scan mf (n - 1) (Some c) cs))"

fun matches_of :: "(uchar + 'a) list \<Rightarrow> 'a list" where
  "matches_of [] = []"
| "matches_of (Inl c # ts) = matches_of ts"
| "matches_of (Inr a # ts) = a # matches_of ts"

fun pieces_acc :: "ustring \<Rightarrow> (uchar + 'a) list \<Rightarrow> ustring list" where
  "pieces_acc cur [] = [rev cur]"
| "pieces_acc cur (Inl c # ts) = pieces_acc (c # cur) ts"
| "pieces_acc cur (Inr a # ts) = rev cur # pieces_acc [] ts"

fun spans_from :: "nat \<Rightarrow> (uchar + ustring) list \<Rightarrow> (nat \<times> ustring) list" where
  "spans_from i [] = []"
| "spans_from i (Inl c # ts) = spans_from (Suc i) ts"
| "spans_from i (Inr m # ts) = (i, m) # spans_from (i + length m) ts"

text \<open>
  \<open>re.findall\<close> (no group, and one group), \<open>re.sub\<close>, \<open>re.split\<close>, \<open>re.search\<close> as a
  truth value, and \<open>re.finditer\<close> as the list of \<open>(match.start(), match.group(0))\<close>.
\<close>

definition re_findall :: "regex \<Rightarrow> ustring \<Rightarrow> ustring list" where
  "re_findall r s = matches_of (scan (match_at r) 0 None s)"

definition re_findall_group :: "regex \<Rightarrow> regex \<Rightarrow> regex \<Rightarrow> ustring \<Rightarrow> ustring list" where
  "re_findall_group pre grp post s = matches_of (scan (group_at pre grp post) 0 None s)"

definition re_sub :: "regex \<Rightarrow> ustring \<Rightarrow> ustring \<Rightarrow> ustring" where
  "re_sub r repl s =
     concat (map (\<lambda>t. case t of Inl c \<Rightarrow> [c] | Inr m \<Rightarrow> repl) (scan (match_at r) 0 None s))"

definition re_split :: "regex \<Rightarrow> ustring \<Rightarrow> ustring list" where
  "re_split r s = pieces_acc [] (scan (match_at r) 0 None s)"

definition re_search :: "regex \<Rightarrow> ustring \<Rightarrow> bool" where
  "re_search r s = (re_findall r s \<noteq> [])"

definition re_finditer :: "regex \<Rightarrow> ustring \<Rightarrow> (nat \<times> ustring) list" where
  "re_finditer r s = spans_from 0 (scan (match_at r) 0 None s)"

text \<open>
  A runtime for the examples: nothing beyond ASCII is a letter or a digit, a set is
  enumerated in insertion order, and the 70 percent comparison is exact.
\<close>

definition plain_rt :: pyrt where
  "plain_rt = \<lparr> ext_alnum = (\<lambda>c. False), ext_alpha = (\<lambda>c. False), ext_isdigit = (\<lambda>c. False),
     ext_decimal = (\<lambda>c. False), ext_lower = (\<lambda>s. s), ext_icase = (\<lambda>c. []),
     set_rank = (\<lambda>xs x. 0), float_gt70 = (\<lambda>n m. 7 * m < 10 * int n) \<rparr>"

section \<open>Entities (modules/ner\_processor.py)\<close>

text \<open>
  The tagger (the spaCy pipeline \<open>self.nlp\<close>) is a collaborator: \<open>None\<close> when the model
  could not be loaded, else a function that raises or returns the entities of the text
  as \<open>(start_char, end_char, text, label_)\<close>.
\<close>

datatype exn = Exn ustring

type_synonym ent = "nat \<times> nat \<times> ustring \<times> ustring"

type_synonym tagger = "ustring \<Rightarrow> exn + ent list"

text \<open>The pattern \<open>\s+\<close>.\<close>

definition ws_run :: regex where
  "ws_run = Plus (Cls isspace)"

text \<open>\<open>clean_entity\<close>: \<open>\s+\<close> becomes one space, then \<open>[^\w\s\.\-\(\)]+\<close> is removed.\<close>

definition clean_entity :: "pyrt \<Rightarrow> ustring \<Rightarrow> ustring" where
  "clean_entity rt entity_text =
     (let cleaned = re_sub ws_run (u '' '') (strip entity_text)
      in re_sub (Plus (Cls (\<lambda>c. \<not> (re_word rt c \<or> isspace c \<or> c = 46 \<or> c = 45
                                          \<or> c = 40 \<or> c = 41)))) [] cleaned)"

definition ner_false_positives :: "ustring list" where
  "ner_false_positives = map u
     [''the'', ''and'', ''or'', ''but'', ''in'', ''on'', ''at'', ''to'', ''for'', ''of'', ''with'',
      ''by'', ''from'', ''up'', ''about'', ''into'', ''through'', ''during'', ''before'',
      ''after'', ''above'', ''below'', ''between'', ''among'', ''page'', ''figure'',
      ''table'', ''section'', ''chapter'', ''appendix'', ''reference'', ''et'', ''al'']"

definition is_valid_entity :: "pyrt \<Rightarrow> ustring \<Rightarrow> ustring \<Rightarrow> bool" where
  "is_valid_entity rt entity_text entity_label =
     (let cleaned = clean_entity rt entity_text in
      if length cleaned < 2 \<or> length cleaned > 100 then False
      else if length cleaned = 1 \<or> isdigit rt cleaned then False
      else if lower rt cleaned \<in> set ner_false_positives then False
      else if entity_label = u ''PERSON'' then
        (if \<not> list_ex (isalpha rt) cleaned then False
         else if length (split_ws cleaned) = 1
                 \<and> lower rt cleaned \<in> set (map u [''he'', ''she'', ''it'', ''they'', ''we'', ''you'', ''i''])
              then False
         else True)
      else if entity_label = u ''ORG'' then
        (if length (split_ws cleaned) = 1 \<and> length cleaned < 3 then False else True)
      else if entity_label \<in> set [u ''DATE'', u ''TIME''] then
        (if lower rt cleaned \<in> set (map u [''now'', ''then'', ''when'', ''time'', ''date''])
         then False else True)
      else True)"

text \<open>
  One round of the highlighting loop: \<open>highlighted_text[:start] + "**" + entity_text +
  "**" + highlighted_text[end:]\<close>; the offsets are not negative.
\<close>

definition highlight_step :: "ustring \<Rightarrow> ent \<Rightarrow> ustring" where
  "highlight_step highlighted_text e =
     (case e of (start, end_char, entity_text, label) \<Rightarrow>
        take start highlighted_text @ u ''**'' @ entity_text @ u ''**''
          @ drop end_char highlighted_text)"

definition valid_entities :: "pyrt \<Rightarrow> ent list \<Rightarrow> ent list" where
  "valid_entities rt ents = filter (\<lambda>(start, end_char, t, label). is_valid_entity rt t label) ents"

definition highlight_entities_in_text :: "pyrt \<Rightarrow> tagger option \<Rightarrow> ustring \<Rightarrow> ustring" where
  "highlight_entities_in_text rt nlp text =
     (case nlp of
        None \<Rightarrow> text
      | Some tag \<Rightarrow>
          (case tag text of
             Inl e \<Rightarrow> text
           | Inr ents \<Rightarrow> foldl highlight_step text (sort_desc fst (valid_entities rt ents))))"

text \<open>
  \<open>extract_entities\<close>. A \<open>dict\<close> is an association list in insertion order; assigning
  to a key that is present keeps its place.
\<close>

type_synonym entity_dict = "(ustring \<times> ustring list) list"

definition dict_get :: "entity_dict \<Rightarrow> ustring \<Rightarrow> ustring list" where
  "dict_get d k = (case map_of d k of None \<Rightarrow> [] | Some v \<Rightarrow> v)"

definition add_entity :: "pyrt \<Rightarrow> entity_dict \<times> (ustring \<times> ustring) list \<Rightarrow> ent
    \<Rightarrow> entity_dict \<times> (ustring \<times> ustring) list" where
  "add_entity rt st e =
     (case st of (entities_by_type, seen_entities) \<Rightarrow>
      case e of (start, end_char, t, label) \<Rightarrow>
        if is_valid_entity rt t label then
          (let cleaned_text = clean_entity rt t;
               entity_key = (lower rt cleaned_text, label)
           in if entity_key \<in> set seen_entities then st
              else (AList.update label (dict_get entities_by_type label @ [cleaned_text])
                      entities_by_type,
                    entity_key # seen_entities))
        else st)"

definition label_mapping :: "(ustring \<times> ustring) list" where
  "label_mapping = map (\<lambda>(a, b). (u a, u b))
     [(''PERSON'', ''People''), (''ORG'', ''Organizations''), (''GPE'', ''Locations''),
      (''DATE'', ''Dates''), (''TIME'', ''Times''), (''MONEY'', ''Money''),
      (''PERCENT'', ''Percentages''), (''QUANTITY'', ''Quantities''),
      (''ORDINAL'', ''Ordinals''), (''CARDINAL'', ''Numbers''), (''EVENT'', ''Events''),
      (''FAC'', ''Facilities''), (''LAW'', ''Laws''), (''LANGUAGE'', ''Languages''),
      (''NORP'', ''Nationalities''), (''PRODUCT'', ''Products''),
      (''WORK_OF_ART'', ''Works of Art'')]"

definition readable_label :: "ustring \<Rightarrow> ustring" where
  "readable_label label = (case map_of label_mapping label of None \<Rightarrow> label | Some r \<Rightarrow> r)"

text \<open>\<open>sorted(list(set(xs)))[:20]\<close>.\<close>

definition sorted_unique20 :: "pyrt \<Rightarrow> ustring list \<Rightarrow> ustring list" where
  "sorted_unique20 rt xs = take 20 (sort (list_of_set rt (foldl (\<lambda>s x. set_add x s) [] xs)))"

definition extract_entities :: "pyrt \<Rightarrow> tagger option \<Rightarrow> ustring \<Rightarrow> entity_dict" where
  "extract_entities rt nlp text =
     (case nlp of
        None \<Rightarrow> [(u ''error'', [u ''spaCy model not available''])]
      | Some tag \<Rightarrow>
          (case tag text of
             Inl (Exn msg) \<Rightarrow> [(u ''error'', [u ''Entity extraction failed: '' @ msg])]
           | Inr ents \<Rightarrow>
               (let entities_by_type = fst (foldl (add_entity rt) ([], []) ents);
                    limited = map (\<lambda>(label, es). (label, sorted_unique20 rt es)) entities_by_type
                in foldl (\<lambda>readable_entities (label, es).
                            AList.update (readable_label label) es readable_entities)
                     [] limited)))"

text \<open>
  The rendering the specification describes for spans in ascending order: the text from
  \<open>pos\<close> on, each span's substring of the original text wrapped in \<open>**\<close>, every other
  character as it is.
\<close>

fun wrap_spans :: "ustring \<Rightarrow> nat \<Rightarrow> (nat \<times> nat) list \<Rightarrow> ustring" where
  "wrap_spans text pos [] = drop pos text"
| "wrap_spans text pos ((s, e) # spans) =
     take (s - pos) (drop pos text) @ u ''**'' @ take (e - s) (drop s text) @ u ''**''
       @ wrap_spans text e spans"

definition span_of :: "ent \<Rightarrow> nat \<times> nat" where
  "span_of x = (case x of (s, e, t, l) \<Rightarrow> (s, e))"

text \<open>
  A span computed against the text: it ends inside the text and carries the substring
  between its offsets. Two spans do not overlap when one ends before the other starts.
\<close>

definition span_in_text :: "ustring \<Rightarrow> ent \<Rightarrow> bool" where
  "span_in_text text x =
     (case x of (s, e, t, l) \<Rightarrow> e \<le> length text \<and> t = take (e - s) (drop s text))"

definition disjoint_spans :: "ent \<Rightarrow> ent \<Rightarrow> bool" where
  "disjoint_spans x y = (fst (snd x) \<le> fst y \<or> fst (snd y) \<le> fst x)"

text \<open>Spans in ascending order from \<open>p\<close> on, each starting where the last one ended or later.\<close>

fun chain :: "ustring \<Rightarrow> nat \<Rightarrow> ent list \<Rightarrow> bool" where
  "chain text p [] = (p \<le> length text)"
| "chain text p (x # r) =
     (p \<le> fst x \<and> fst x \<le> fst (snd x) \<and> span_in_text text x \<and> chain text (fst (snd x)) r)"

text \<open>A tagger for the examples: three entities of \<open>Paris is great\<close>, not in order.\<close>

definition paris_tagger :: tagger where
  "paris_tagger text =
     Inr [(9, 14, u ''great'', u ''ADJ''), (6, 8, u ''is'', u ''X''), (0, 5, u ''Paris'', u ''GPE'')]"

definition failing_tagger :: tagger where
  "failing_tagger text = Inl (Exn (u ''tagger failed''))"

section \<open>Mathematical expressions (modules/math\_extractor.py)\<close>

definition ch :: "char \<Rightarrow> uchar" where
  "ch c = of_char c"

definition one_of :: "ustring \<Rightarrow> uchar \<Rightarrow> bool" where
  "one_of s c = (c \<in> set s)"

text \<open>The ranges \<open>A-Za-z\<close>, \<open>A-Za-z0-9\<close> and \<open>\<alpha>-\<omega>\<Alpha>-\<Omega>\<close> (U+03B1..U+03C9, U+0391..U+03A9).\<close>

definition ascii_letter :: "uchar \<Rightarrow> bool" where
  "ascii_letter c = (ascii_upper c \<or> ascii_lower c)"

definition ascii_alnum :: "uchar \<Rightarrow> bool" where
  "ascii_alnum c = (ascii_upper c \<or> ascii_lower c \<or> ascii_digit c)"

definition greek_letter :: "uchar \<Rightarrow> bool" where
  "greek_letter c = ((945 \<le> c \<and> c \<le> 969) \<or> (913 \<le> c \<and> c \<le> 937))"

text \<open>
  A pattern is a regular expression without a group, or \<open>pre(grp)post\<close> with one group;
  \<open>re.findall\<close> returns the whole matches of the first kind and the group's text of the
  second, \<open>match.group(0)\<close> is the whole match of both.
\<close>

datatype pattern = Plain regex | Grouped regex regex regex

fun whole :: "pattern \<Rightarrow> regex" where
  "whole (Plain r) = r"
| "whole (Grouped pre grp post) = Seq pre (Seq grp post)"

fun pattern_findall :: "pattern \<Rightarrow> ustring \<Rightarrow> ustring list" where
  "pattern_findall (Plain r) s = re_findall r s"
| "pattern_findall (Grouped pre grp post) s = re_findall_group pre grp post s"

text \<open>
  The classes \<open>[A-Za-z0-9\s\^\=\+\-\*/\(\)\.]\<close> and \<open>[A-Za-z0-9\s\^\+\-\*/\(\)\.]\<close>. All
  patterns are compiled with \<open>re.IGNORECASE | re.MULTILINE\<close>; none uses \<open>^\<close> or \<open>$\<close>.
\<close>

definition eq_class :: "pyrt \<Rightarrow> uchar \<Rightarrow> bool" where
  "eq_class rt c =
     (ci rt (\<lambda>c. ascii_alnum c \<or> one_of (u ''^=+-*/().'') c) c \<or> isspace c)"

definition ineq_class :: "pyrt \<Rightarrow> uchar \<Rightarrow> bool" where
  "ineq_class rt c =
     (ci rt (\<lambda>c. ascii_alnum c \<or> one_of (u ''^+-*/().'') c) c \<or> isspace c)"

definition ws_star :: regex where
  "ws_star = Star (Cls isspace)"

text \<open>\<open>self.patterns\<close>, in order.\<close>

definition pat_equation :: "pyrt \<Rightarrow> pattern" where
  "pat_equation rt = Plain (Seqs [Plus (Cls (eq_class rt)), ws_star, Chr (ch CHR ''=''), ws_star,
     Plus (Cls (eq_class rt))])"

definition pat_dollars :: "pyrt \<Rightarrow> pattern" where
  "pat_dollars rt = Grouped (Seqs [Str (u ''$$''), ws_star]) (LazyPlus (Cls (\<lambda>c. c \<noteq> 10)))
     (Seqs [ws_star, Str (u ''$$'')])"

definition pat_scientific :: "pyrt \<Rightarrow> pattern" where
  "pat_scientific rt = Plain (Seqs [Plus (Cls (re_digit rt)), Opt (Chr (ch CHR ''.'')),
     Star (Cls (re_digit rt)), ws_star,
     Cls (ci rt (\<lambda>c. c = 215 \<or> c = ch CHR ''x'' \<or> c = ch CHR ''*'')), ws_star,
     Str (u ''10''), Opt (Chr (ch CHR ''^'')), Opt (Cls (one_of (u ''-+''))),
     Plus (Cls (re_digit rt))])"

definition pat_fraction :: "pyrt \<Rightarrow> pattern" where
  "pat_fraction rt = Plain (Seqs [Plus (Cls (re_digit rt)), Chr (ch CHR ''/''),
     Plus (Cls (re_digit rt))])"

definition pat_power :: "pyrt \<Rightarrow> pattern" where
  "pat_power rt = Plain (Seqs [Plus (Cls (ci rt ascii_alnum)), Chr (ch CHR ''^''),
     Plus (Cls (ci rt (\<lambda>c. ascii_alnum c \<or> one_of (u ''+-'') c)))])"

definition pat_greek :: "pyrt \<Rightarrow> pattern" where
  "pat_greek rt = Plain (Seqs [Plus (Cls (ci rt greek_letter)), ws_star,
     Cls (one_of (u ''=+-*/'')), ws_star,
     Plus (Cls (ci rt (\<lambda>c. ascii_alnum c \<or> one_of (u ''+-*/^().'') c)))])"

definition pat_sum :: "pyrt \<Rightarrow> pattern" where
  "pat_sum rt = Plain (Seqs [Cls (one_of [8721, 8747, 8719]), Plus (Cls (eq_class rt))])"

definition pat_function :: "pyrt \<Rightarrow> pattern" where
  "pat_function rt = Grouped Eps
     (Alts (map (\<lambda>w. StrI rt (u w))
        [''sin'', ''cos'', ''tan'', ''log'', ''ln'', ''exp'', ''sqrt'', ''abs'', ''max'', ''min'',
         ''lim'']))
     (Seqs [ws_star, Chr (ch CHR ''(''), Plus (Cls (eq_class rt)), Chr (ch CHR '')'')])"

definition pat_derivative :: "pyrt \<Rightarrow> pattern" where
  "pat_derivative rt = Plain (Seqs [ChrI rt (ch CHR ''d''), Cls (ci rt ascii_letter),
     Chr (ch CHR ''/''), ChrI rt (ch CHR ''d''), Cls (ci rt ascii_letter)])"

definition pat_partial :: "pyrt \<Rightarrow> pattern" where
  "pat_partial rt = Plain (Seqs [Chr 8706, Cls (ci rt ascii_letter), Chr (ch CHR ''/''),
     Chr 8706, Cls (ci rt ascii_letter)])"

definition pat_matrix :: "pyrt \<Rightarrow> pattern" where
  "pat_matrix rt = Plain (Seqs [Chr (ch CHR ''[''),
     Plus (Cls (\<lambda>c. ci rt (\<lambda>c. ascii_alnum c \<or> one_of (u '',;+-*/'') c) c \<or> isspace c)),
     Chr (ch CHR '']'')])"

definition pat_inequality :: "pyrt \<Rightarrow> pattern" where
  "pat_inequality rt = Plain (Seqs [Plus (Cls (ineq_class rt)), ws_star,
     Cls (one_of [ch CHR ''<'', ch CHR ''>'', 8804, 8805, 8800]), ws_star,
     Plus (Cls (ineq_class rt))])"

definition patterns :: "pyrt \<Rightarrow> pattern list" where
  "patterns rt = [pat_equation rt, pat_dollars rt, pat_scientific rt, pat_fraction rt,
     pat_power rt, pat_greek rt, pat_sum rt, pat_function rt, pat_derivative rt,
     pat_partial rt, pat_matrix rt, pat_inequality rt]"

text \<open>
  \<open>self.math_symbols\<close>: \<open>= + - * / ^\<close>, the root, sum, integral and product signs, the
  Greek letters \<open>\<alpha>\<close> to \<open>\<omega>\<close> without the final sigma, and
  \<open>\<infinity> \<partial> \<le> \<ge> \<noteq> \<approx> \<in> \<notin> \<subset> \<supset> \<union> \<inter>\<close>.
\<close>

definition math_symbols :: "uchar list" where
  "math_symbols = u ''=+-*/^'' @ [8730, 8721, 8747, 8719, 960, 945, 946, 947, 948, 949, 950,
     951, 952, 953, 954, 955, 956, 957, 958, 959, 960, 961, 963, 964, 965, 966, 967, 968, 969,
     8734, 8706, 8804, 8805, 8800, 8776, 8712, 8713, 8834, 8835, 8746, 8745]"

definition math_false_positives :: "ustring list" where
  "math_false_positives = map u [''page'', ''figure'', ''table'', ''section'', ''chapter'',
     ''reference'', ''bibliography'', ''index'', ''appendix'']"

text \<open>The pattern \<open>^\$\$\s*|\s*\$\$$\<close> of \<open>clean_expression\<close> (no flags).\<close>

definition leading_dollars :: regex where
  "leading_dollars = Seqs [Bos, Str (u ''$$''), ws_star]"

definition trailing_dollars :: regex where
  "trailing_dollars = Seqs [ws_star, Str (u ''$$''), Eos]"

definition dollar_wrappers :: regex where
  "dollar_wrappers = Alt leading_dollars trailing_dollars"

definition clean_expression :: "ustring \<Rightarrow> ustring" where
  "clean_expression expr =
     (let expr = re_sub ws_run (u '' '') (strip expr);
          expr = re_sub dollar_wrappers [] expr;
          expr = replace_char 215 (ch CHR ''*'') expr;
          expr = replace_char 247 (ch CHR ''/'') expr
      in expr)"

definition is_valid_math_expression :: "pyrt \<Rightarrow> ustring \<Rightarrow> bool" where
  "is_valid_math_expression rt expr =
     (let cleaned = clean_expression expr in
      if length cleaned < 3 \<or> length cleaned > 200 then False
      else if \<not> list_ex (\<lambda>symbol. symbol \<in> set cleaned) math_symbols then False
      else if length (filter (isalnum rt) cleaned) < 2 then False
      else if list_ex (\<lambda>fp. contains fp (lower rt cleaned)) math_false_positives then False
      else True)"

text \<open>
  \<open>extract_expressions\<close>: every non-empty valid match is cleaned and added to the set;
  the set is listed, sorted by length, longest first, and cut at 50.
\<close>

definition add_match :: "pyrt \<Rightarrow> ustring list \<Rightarrow> ustring \<Rightarrow> ustring list" where
  "add_match rt expressions m =
     (if m \<noteq> [] \<and> is_valid_math_expression rt m then set_add (clean_expression m) expressions
      else expressions)"

definition collect_expressions :: "pyrt \<Rightarrow> ustring \<Rightarrow> ustring list" where
  "collect_expressions rt text =
     foldl (\<lambda>expressions pattern. foldl (add_match rt) expressions (pattern_findall pattern text))
       [] (patterns rt)"

definition extract_expressions :: "pyrt \<Rightarrow> ustring \<Rightarrow> ustring list" where
  "extract_expressions rt text =
     take 50 (sort_desc length (list_of_set rt (collect_expressions rt text)))"

text \<open>
  \<open>extract_formulas_with_context\<close>: every valid match with its context, the first
  occurrence of each cleaned expression kept, sorted by position, cut at 30.
\<close>

record formula =
  expression :: ustring
  context_of :: ustring
  position :: nat

definition formula_of :: "ustring \<Rightarrow> int \<Rightarrow> nat \<times> ustring \<Rightarrow> formula" where
  "formula_of text context_chars m =
     (case m of (start_pos, expr) \<Rightarrow>
        (let start = max 0 (int start_pos - context_chars);
             end_pos = min (int (length text)) (int (start_pos + length expr) + context_chars)
         in \<lparr> expression = clean_expression expr,
              context_of = strip (slice text start end_pos),
              position = start_pos \<rparr>))"

definition formulas_of_pattern :: "pyrt \<Rightarrow> ustring \<Rightarrow> int \<Rightarrow> pattern \<Rightarrow> formula list" where
  "formulas_of_pattern rt text context_chars pattern =
     map (formula_of text context_chars)
       (filter (\<lambda>(start_pos, expr). is_valid_math_expression rt expr)
          (re_finditer (whole pattern) text))"

fun unique_formulas :: "ustring list \<Rightarrow> formula list \<Rightarrow> formula list" where
  "unique_formulas seen [] = []"
| "unique_formulas seen (item # items) =
     (if expression item \<notin> set seen
      then item # unique_formulas (expression item # seen) items
      else unique_formulas seen items)"

definition extract_formulas_with_context :: "pyrt \<Rightarrow> ustring \<Rightarrow> int \<Rightarrow> formula list" where
  "extract_formulas_with_context rt text context_chars =
     take 30 (sort_key position
       (unique_formulas [] (concat (map (formulas_of_pattern rt text context_chars) (patterns rt)))))"

text \<open>
  What the specification says of cleaning, step by step: every run of whitespace becomes
  one space; a leading \<open>$$\<close> goes with the whitespace after it, a trailing \<open>$$\<close> with
  the whitespace before it; the multiplication and division signs become \<open>*\<close> and \<open>/\<close>.
\<close>

function collapse_ws :: "ustring \<Rightarrow> ustring" where
  "collapse_ws [] = []"
| "collapse_ws (c # cs) =
     (if isspace c then 32 # collapse_ws (dropWhile isspace cs) else c # collapse_ws cs)"
  by pat_completeness auto
termination
  by (relation "measure length") (auto simp: less_Suc_eq_le length_dropWhile_le)

definition ends_with :: "ustring \<Rightarrow> ustring \<Rightarrow> bool" where
  "ends_with x s = starts_with (rev x) (rev s)"

definition strip_leading_dollars :: "ustring \<Rightarrow> ustring" where
  "strip_leading_dollars s =
     (if starts_with (u ''$$'') s then dropWhile isspace (drop 2 s) else s)"

definition strip_trailing_dollars :: "ustring \<Rightarrow> ustring" where
  "strip_trailing_dollars s =
     (if ends_with (u ''$$'') s then rev (dropWhile isspace (drop 2 (rev s))) else s)"

definition spec_clean_expression :: "ustring \<Rightarrow> ustring" where
  "spec_clean_expression expr =
     replace_char 247 (ch CHR ''/'') (replace_char 215 (ch CHR ''*'')
       (strip_trailing_dollars (strip_leading_dollars (collapse_ws (strip expr)))))"

section \<open>Summaries (modules/summarizer.py)\<close>

text \<open>
  The summarization model (\<open>self.summarizer\<close>, a transformers pipeline) is a collaborator:
  \<open>None\<close> when it could not be loaded (\<open>model_loaded\<close> is then false), else a function of
  the text, \<open>max_length\<close> and \<open>min_length\<close> that raises or returns the summary text.
\<close>

type_synonym summarizer = "ustring \<Rightarrow> int \<Rightarrow> int \<Rightarrow> exn + ustring"

text \<open>The patterns \<open>[.!?]+\<close>, \<open>\$\$.*?\$\$\<close> and \<open>[^\w\s\.\,\!\?\;\:\-\(\)\"\']+\<close>.\<close>

definition sentence_end :: regex where
  "sentence_end = Plus (Cls (one_of (u ''.!?'')))"

definition math_span :: regex where
  "math_span = Seqs [Str (u ''$$''), LazyStar (Cls (\<lambda>c. c \<noteq> 10)), Str (u ''$$'')]"

definition noise :: "pyrt \<Rightarrow> regex" where
  "noise rt = Plus (Cls (\<lambda>c. \<not> (re_word rt c \<or> isspace c
                                   \<or> one_of (u ''.,!?;:-()'' @ [34, 39]) c)))"

text \<open>The loop that drops a word repeated more than three times in a row.\<close>

fun drop_repeats :: "pyrt \<Rightarrow> ustring \<Rightarrow> nat \<Rightarrow> ustring list \<Rightarrow> ustring list" where
  "drop_repeats rt prev_word repeat_count [] = []"
| "drop_repeats rt prev_word repeat_count (word # ws) =
     (if lower rt word = lower rt prev_word then
        (if repeat_count + 1 < 3 then word # drop_repeats rt word (repeat_count + 1) ws
         else drop_repeats rt word (repeat_count + 1) ws)
      else word # drop_repeats rt word 0 ws)"

definition clean_text_for_summarization :: "pyrt \<Rightarrow> ustring \<Rightarrow> ustring" where
  "clean_text_for_summarization rt text =
     (let text = re_sub ws_run (u '' '') text;
          text = re_sub math_span (u ''[MATH_EXPRESSION]'') text;
          lines = split_char 10 text;
          cleaned_lines = filter (\<lambda>line. length line > 10) (map strip lines);
          cleaned_text = join (u '' '') cleaned_lines;
          cleaned_text = re_sub (noise rt) (u '' '') cleaned_text;
          cleaned_words = drop_repeats rt [] 0 (split_ws cleaned_text)
      in join (u '' '') cleaned_words)"

text \<open>\<open>split_text_into_chunks\<close>: the state of the loop is \<open>(chunks, current_chunk)\<close>.\<close>

definition chunk_step :: "int \<Rightarrow> ustring list \<times> ustring \<Rightarrow> ustring \<Rightarrow> ustring list \<times> ustring" where
  "chunk_step max_chunk_length st raw =
     (case st of (chunks, current_chunk) \<Rightarrow>
        (let sentence = strip raw in
         if sentence = [] then st
         else if int (length current_chunk + length sentence) > max_chunk_length
                 \<and> current_chunk \<noteq> []
              then (chunks @ [strip current_chunk], sentence)
         else if current_chunk \<noteq> [] then (chunks, current_chunk @ u ''. '' @ sentence)
         else (chunks, sentence)))"

definition split_text_into_chunks :: "ustring \<Rightarrow> int \<Rightarrow> ustring list" where
  "split_text_into_chunks text max_chunk_length =
     (case foldl (chunk_step max_chunk_length) ([], []) (re_split sentence_end text) of
        (chunks, current_chunk) \<Rightarrow>
          if strip current_chunk \<noteq> [] then chunks @ [strip current_chunk] else chunks)"

text \<open>\<open>score_sentence_importance\<close>.\<close>

definition months :: "ustring list" where
  "months = map u [''January'', ''February'', ''March'', ''April'', ''May'', ''June'', ''July'',
     ''August'', ''September'', ''October'', ''November'', ''December'']"

definition importance_indicators :: "(ustring \<times> nat) list" where
  "importance_indicators = map (\<lambda>(w, b). (u w, b))
     [(''conclusion'', 15), (''result'', 12), (''finding'', 12), (''significant'', 10),
      (''important'', 10), (''key'', 8), (''main'', 8), (''primary'', 8),
      (''discovered'', 10), (''showed'', 8), (''demonstrated'', 8),
      (''analysis'', 6), (''study'', 6), (''research'', 6), (''data'', 5)]"

text \<open>\<open>(?:\.\d+)?\<close> and \<open>(?:,\d{3})*\<close>.\<close>

definition decimals :: "pyrt \<Rightarrow> regex" where
  "decimals rt = Opt (Seq (Chr (ch CHR ''.'')) (Plus (Cls (re_digit rt))))"

definition thousands :: "pyrt \<Rightarrow> regex" where
  "thousands rt = Star (Seq (Chr (ch CHR '','')) (Rep 3 (Cls (re_digit rt))))"

text \<open>\<open>\d+(?:\.\d+)?[%]?\<close> and \<open>\b\d{4}\b|\b(?:January|...|December)\b\<close> (no flags).\<close>

definition number_re :: "pyrt \<Rightarrow> regex" where
  "number_re rt = Seqs [Plus (Cls (re_digit rt)), decimals rt, Opt (Chr (ch CHR ''%''))]"

definition year_or_month_re :: "pyrt \<Rightarrow> regex" where
  "year_or_month_re rt =
     Alt (Seqs [Boundary rt, Rep 4 (Cls (re_digit rt)), Boundary rt])
         (Seqs [Boundary rt, Alts (map Str months), Boundary rt])"

definition score_sentence_importance :: "pyrt \<Rightarrow> ustring \<Rightarrow> nat" where
  "score_sentence_importance rt sentence =
     (let score = length (split_ws sentence);
          sentence_lower = lower rt sentence;
          score = foldl (\<lambda>score (indicator, boost).
                    if contains indicator sentence_lower then score + boost else score)
                  score importance_indicators;
          score = (if re_search (number_re rt) sentence then score + 8 else score);
          score = (if re_search (year_or_month_re rt) sentence then score + 5 else score)
      in score)"

text \<open>\<open>extract_key_points\<close>.\<close>

definition extract_key_points :: "pyrt \<Rightarrow> ustring \<Rightarrow> int \<Rightarrow> ustring list" where
  "extract_key_points rt text num_points =
     (let sentences = map strip (re_split sentence_end text);
          scored_sentences =
            map (\<lambda>sentence. (score_sentence_importance rt sentence, sentence))
              (filter (\<lambda>sentence. length sentence > 30 \<and> length (split_ws sentence) > 5)
                 sentences);
          scored_sentences = sort_desc fst scored_sentences
      in map snd (slice_to scored_sentences num_points))"

text \<open>
  \<open>extract_facts_and_figures\<close>. The patterns are used with \<open>re.IGNORECASE\<close>; their groups
  do not capture, so \<open>re.findall\<close> returns whole matches.
\<close>

definition magnitude :: "pyrt \<Rightarrow> regex" where
  "magnitude rt = Alts (map (\<lambda>w. StrI rt (u w))
     [''million'', ''billion'', ''thousand'', ''M'', ''B'', ''K''])"

definition number_patterns :: "pyrt \<Rightarrow> regex list" where
  "number_patterns rt =
     [Seqs [Boundary rt, Plus (Cls (re_digit rt)), decimals rt, Chr (ch CHR ''%''), Boundary rt],
      Seqs [Boundary rt, Plus (Cls (re_digit rt)), thousands rt, decimals rt, ws_star,
            magnitude rt, Boundary rt],
      Seqs [Chr (ch CHR ''$''), Plus (Cls (re_digit rt)), thousands rt, decimals rt,
            Opt (Seq ws_star (magnitude rt)), Boundary rt],
      Seqs [Boundary rt, Rep 4 (Cls (re_digit rt)), Boundary rt],
      Seqs [Boundary rt, Plus (Cls (re_digit rt)), decimals rt, ws_star,
            Alts (map (\<lambda>w. StrI rt (u w))
              [''kg'', ''g'', ''lb'', ''ton'', ''meter'', ''m'', ''km'', ''ft'', ''inch'', ''cm'',
               ''mm'']),
            Boundary rt]]"

definition date_patterns :: "pyrt \<Rightarrow> regex list" where
  "date_patterns rt =
     [Seqs [Boundary rt, Alts (map (StrI rt) months), Plus (Cls isspace),
            RepRange 1 2 (Cls (re_digit rt)), Opt (Chr (ch CHR '','')), Plus (Cls isspace),
            Rep 4 (Cls (re_digit rt)), Boundary rt],
      Seqs [Boundary rt, RepRange 1 2 (Cls (re_digit rt)), Cls (one_of (u ''-/'')),
            RepRange 1 2 (Cls (re_digit rt)), Cls (one_of (u ''-/'')),
            RepRange 2 4 (Cls (re_digit rt)), Boundary rt],
      Seqs [Boundary rt, Alts (map (\<lambda>w. StrI rt (u w)) [''from'', ''between'', ''during'']),
            Plus (Cls isspace), Rep 4 (Cls (re_digit rt)), ws_star,
            Alts (map (\<lambda>w. StrI rt (u w)) [''to'', ''and'', ''-'']), ws_star,
            Rep 4 (Cls (re_digit rt)), Boundary rt]]"

text \<open>
  The context of a match: \<open>window\<close> characters on each side of the first occurrence of
  the matched string, clamped to the text, trimmed, its whitespace normalized.
\<close>

definition context_start :: "ustring \<Rightarrow> int \<Rightarrow> ustring \<Rightarrow> int" where
  "context_start text window m = max 0 (find text m - window)"

definition context_end :: "ustring \<Rightarrow> int \<Rightarrow> ustring \<Rightarrow> int" where
  "context_end text window m =
     min (int (length text)) (find text m + int (length m) + window)"

definition context_around :: "ustring \<Rightarrow> int \<Rightarrow> ustring \<Rightarrow> ustring" where
  "context_around text window m =
     (let context = strip (slice text (context_start text window m) (context_end text window m))
      in join (u '' '') (split_ws context))"

definition add_fact :: "ustring \<Rightarrow> int \<Rightarrow> nat \<Rightarrow> ustring list \<Rightarrow> ustring \<Rightarrow> ustring list" where
  "add_fact text window min_len facts m =
     (if find text m \<noteq> - 1 then
        (let context = context_around text window m
         in if length context > min_len \<and> context \<notin> set facts then facts @ [context]
            else facts)
      else facts)"

definition add_pattern_facts ::
    "ustring \<Rightarrow> int \<Rightarrow> nat \<Rightarrow> ustring list \<Rightarrow> regex \<Rightarrow> ustring list" where
  "add_pattern_facts text window min_len facts pattern =
     foldl (add_fact text window min_len) facts (re_findall pattern text)"

definition all_facts :: "pyrt \<Rightarrow> ustring \<Rightarrow> ustring list" where
  "all_facts rt text =
     (let facts = foldl (add_pattern_facts text 50 20) [] (number_patterns rt)
      in foldl (add_pattern_facts text 40 15) facts (date_patterns rt))"

definition extract_facts_and_figures :: "pyrt \<Rightarrow> ustring \<Rightarrow> ustring list" where
  "extract_facts_and_figures rt text = take 10 (all_facts rt text)"

text \<open>\<open>create_comprehensive_summary\<close>.\<close>

definition result_parts :: "ustring list \<Rightarrow> ustring list \<Rightarrow> ustring list \<Rightarrow> ustring list" where
  "result_parts summaries key_points facts =
     (let main_content = strip (join (u '' '') summaries)
      in (if main_content \<noteq> [] then [u ''SUMMARY: '' @ main_content] else [])
         @ (if key_points \<noteq> [] then [u ''KEY POINTS: '' @ join (u ''; '') (take 5 key_points)]
            else [])
         @ (if facts \<noteq> [] then [u ''IMPORTANT FACTS: '' @ join (u ''; '') (take 5 facts)]
            else []))"

definition truncate :: "ustring \<Rightarrow> int \<Rightarrow> ustring" where
  "truncate s max_length = slice_to s (max_length - 3) @ u ''...''"

definition create_comprehensive_summary ::
    "ustring list \<Rightarrow> ustring list \<Rightarrow> ustring list \<Rightarrow> int \<Rightarrow> ustring" where
  "create_comprehensive_summary summaries key_points facts max_length =
     (let parts = result_parts summaries key_points facts;
          combined = join (u '' | '') parts
      in if int (length combined) > max_length then
           (if length parts > 1 then
              (let shortened = parts ! 0;
                   shortened =
                     (if length parts > 1
                         \<and> int (length shortened + length (parts ! 1)) < max_length
                      then shortened @ u '' | '' @ parts ! 1 else shortened);
                   shortened =
                     (if int (length shortened) > max_length then truncate shortened max_length
                      else shortened)
               in shortened)
            else truncate combined max_length)
         else combined)"

text \<open>
  \<open>_comprehensive_fallback_summary\<close>: the qualifying sentences, ranked by score; the
  greedy choice of sentences, which stops at the first that does not fit
  (\<open>current_length + len(sentence) > max_length * 0.7\<close> is a comparison of floats); the
  facts that fit the space left.
\<close>

definition unable_message :: ustring where
  "unable_message = u ''Unable to generate summary from the provided text.''"

definition too_short_message :: ustring where
  "too_short_message = u ''Text too short for meaningful summarization.''"

definition qualifying_sentences :: "ustring \<Rightarrow> ustring list" where
  "qualifying_sentences text =
     filter (\<lambda>sentence. length sentence > 20 \<and> length (split_ws sentence) > 4)
       (map strip (re_split sentence_end text))"

definition ranked_sentences :: "pyrt \<Rightarrow> ustring \<Rightarrow> ustring list" where
  "ranked_sentences rt text =
     map snd (sort_desc fst
       (map (\<lambda>sentence. (score_sentence_importance rt sentence, sentence))
          (qualifying_sentences text)))"

fun select_sentences :: "pyrt \<Rightarrow> int \<Rightarrow> nat \<Rightarrow> ustring list \<Rightarrow> ustring list" where
  "select_sentences rt max_length current_length [] = []"
| "select_sentences rt max_length current_length (sentence # rest) =
     (if float_gt70 rt (current_length + length sentence) max_length then []
      else sentence # select_sentences rt max_length (current_length + length sentence) rest)"

fun facts_that_fit :: "int \<Rightarrow> nat \<Rightarrow> ustring list \<Rightarrow> ustring list" where
  "facts_that_fit available_space facts_length [] = []"
| "facts_that_fit available_space facts_length (item # rest) =
     (if int (facts_length + length item) < available_space
      then item # facts_that_fit available_space (facts_length + length item) rest
      else facts_that_fit available_space facts_length rest)"

definition fallback_facts_text :: "pyrt \<Rightarrow> ustring \<Rightarrow> int \<Rightarrow> nat \<Rightarrow> ustring" where
  "fallback_facts_text rt text max_length current_length =
     (let facts = extract_facts_and_figures rt text in
      if facts \<noteq> [] then
        (let available_space = max_length - int current_length - 20;
             facts_to_add = facts_that_fit available_space 0 facts
         in if facts_to_add \<noteq> [] then u '' | FACTS: '' @ join (u ''; '') (take 3 facts_to_add)
            else [])
      else [])"

definition comprehensive_fallback_summary :: "pyrt \<Rightarrow> ustring \<Rightarrow> int \<Rightarrow> ustring" where
  "comprehensive_fallback_summary rt text max_length =
     (let clean_sentences = qualifying_sentences text in
      if clean_sentences = [] then unable_message
      else
        (let summary_sentences = select_sentences rt max_length 0 (ranked_sentences rt text);
             current_length = sum_list (map length summary_sentences);
             facts_text = fallback_facts_text rt text max_length current_length
         in if summary_sentences \<noteq> []
            then join (u ''. '') summary_sentences @ u ''.'' @ facts_text
            else truncate (clean_sentences ! 0) max_length))"

text \<open>
  \<open>generate_summary\<close>. The chunk loop keeps \<open>(chunk_summaries, factual_content)\<close>; a chunk
  whose model call raises adds nothing. Nothing else in the body can raise, so the outer
  handler is never entered.
\<close>

definition summarize_chunk ::
    "pyrt \<Rightarrow> summarizer \<Rightarrow> int \<Rightarrow> int \<Rightarrow> nat \<Rightarrow> ustring list \<times> ustring list \<Rightarrow> ustring
     \<Rightarrow> ustring list \<times> ustring list" where
  "summarize_chunk rt model max_length min_length n_chunks st chunk =
     (case st of (chunk_summaries, factual_content) \<Rightarrow>
        if length (split_ws chunk) \<ge> 20 then
          (case model chunk (min 120 (max_length div max (int n_chunks) 1))
                            (min 40 (min_length div max (int n_chunks) 1)) of
             Inr summary_text \<Rightarrow>
               (chunk_summaries @ [summary_text],
                factual_content @ extract_facts_and_figures rt chunk)
           | Inl e \<Rightarrow> st)
        else st)"

definition generate_summary ::
    "pyrt \<Rightarrow> summarizer option \<Rightarrow> ustring \<Rightarrow> int \<Rightarrow> int \<Rightarrow> ustring" where
  "generate_summary rt model_opt text max_length min_length =
     (case model_opt of
        None \<Rightarrow> comprehensive_fallback_summary rt text max_length
      | Some model \<Rightarrow>
          (let cleaned_text = clean_text_for_summarization rt text in
           if length (split_ws cleaned_text) < 50 then too_short_message
           else
             (let key_points = extract_key_points rt text 8 in
              if length cleaned_text > 900 then
                (let chunks = split_text_into_chunks cleaned_text 800;
                     (chunk_summaries, factual_content) =
                       foldl (summarize_chunk rt model max_length min_length (length chunks))
                         ([], []) (take 6 chunks)
                 in if chunk_summaries \<noteq> []
                    then create_comprehensive_summary chunk_summaries key_points
                           factual_content max_length
                    else comprehensive_fallback_summary rt text max_length)
              else
                (case model cleaned_text (max_length - 100) (max (min_length - 50) 30) of
                   Inr summary_text \<Rightarrow>
                     create_comprehensive_summary [summary_text] key_points
                       (extract_facts_and_figures rt text) max_length
                 | Inl e \<Rightarrow> comprehensive_fallback_summary rt text max_length))))"

text \<open>A model for the examples: it returns its input cut at \<open>max_length\<close> characters.\<close>

definition echo_model :: summarizer where
  "echo_model text max_length min_length = Inr (slice_to text max_length)"

text \<open>Texts for the examples: thirty words in sentences of three, and one long sentence.\<close>

definition short30 :: ustring where
  "short30 = u ''One two three. Four five six. Seven eight nine. Ten eleven twelve. Red green blue. Sun moon stars. North south east. Salt and pepper. Up down left. Yes no maybe.''"

definition long_sentence :: ustring where
  "long_sentence = u ''This sentence has more than twenty characters''"

text \<open>
  Chunks, as the specification describes them. The sentences of a text are the trimmed,
  non-empty pieces between sentence terminators. Sentences are accumulated into a run; a
  new run starts exactly when the run is not empty and the length of its chunk plus the
  length of the next sentence exceeds the bound. A chunk is a run joined by \<open>". "\<close>.
\<close>

definition sentences_of :: "ustring \<Rightarrow> ustring list" where
  "sentences_of text = filter (\<lambda>s. s \<noteq> []) (map strip (re_split sentence_end text))"

fun group_runs :: "int \<Rightarrow> ustring list \<Rightarrow> ustring list \<Rightarrow> ustring list list" where
  "group_runs bound run [] = (if run = [] then [] else [run])"
| "group_runs bound run (s # ss) =
     (if run \<noteq> [] \<and> bound < int (length (join (u ''. '') run) + length s)
      then run # group_runs bound [s] ss
      else group_runs bound (run @ [s]) ss)"

text \<open>A string is trimmed when it is not empty and neither starts nor ends with whitespace.\<close>

definition trimmed :: "ustring \<Rightarrow> bool" where
  "trimmed s = (s \<noteq> [] \<and> \<not> isspace (hd s) \<and> \<not> isspace (last s))"

text \<open>The loop of \<open>split_text_into_chunks\<close> on a sentence that is not empty, and its end.\<close>

definition add_sentence :: "int \<Rightarrow> ustring list \<times> ustring \<Rightarrow> ustring \<Rightarrow> ustring list \<times> ustring" where
  "add_sentence bound st sentence =
     (case st of (chunks, current_chunk) \<Rightarrow>
        if int (length current_chunk + length sentence) > bound \<and> current_chunk \<noteq> []
        then (chunks @ [strip current_chunk], sentence)
        else if current_chunk \<noteq> [] then (chunks, current_chunk @ u ''. '' @ sentence)
        else (chunks, sentence))"

definition finish_chunks :: "ustring list \<times> ustring \<Rightarrow> ustring list" where
  "finish_chunks st =
     (case st of (chunks, current_chunk) \<Rightarrow>
        if strip current_chunk \<noteq> [] then chunks @ [strip current_chunk] else chunks)"

text \<open>
  A run fits the bound when it is a single sentence, or when its last sentence was added
  to a chunk whose length plus the length of that sentence did not exceed the bound.
\<close>

definition run_fits :: "int \<Rightarrow> ustring list \<Rightarrow> bool" where
  "run_fits bound run =
     (run \<noteq> [] \<and> (length run = 1
        \<or> int (length (join (u ''. '') (butlast run)) + length (last run)) \<le> bound))"

text \<open>Example texts for the chunks.\<close>

definition four_sentences :: ustring where
  "four_sentences = u ''One two. Three four! Five six? Seven''"

definition long_word :: ustring where
  "long_word = replicate 801 (ch CHR ''a'')"

section \<open>Evaluation rules\<close>

lemma scan_Nil_None: "mf pv [] = None \<Longrightarrow> scan mf k pv [] = []"
  by simp

lemma scan_Nil_Some:
  "mf pv [] = Some (n, a) \<Longrightarrow> scan mf k pv [] = (if k = 0 then [Inr a] else [])"
  by simp

lemma scan_Cons_skip: "0 < k \<Longrightarrow> scan mf k pv (c # cs) = scan mf (k - 1) (Some c) cs"
  by simp

lemma scan_Cons_None:
  "mf pv (c # cs) = None \<Longrightarrow> scan mf 0 pv (c # cs) = Inl c # scan mf 0 (Some c) cs"
  by simp

lemma scan_Cons_Some:
  "mf pv (c # cs) = Some (n, a) \<Longrightarrow> scan mf 0 pv (c # cs) =
     (if n = 0 then Inr a # Inl c # scan mf 0 (Some c) cs
      else Inr a # scan mf (n - 1) (Some c) cs)"
  by simp

declare scan.simps [simp del]

lemmas char_defs = u_def isspace_def ascii_upper_def ascii_lower_def ascii_digit_def isalpha_def
  isalnum_def isdigit_char_def isdigit_def re_digit_def re_word_def lower_char_def lower_def

lemmas re_defs = Plus_def LazyPlus_def Opt_def Rep_def RepRange_def case_variants_def ci_def
  Chr_def Str_def ChrI_def StrI_def word_before_def word_after_def Boundary_def Bos_def Eos_def
  match_at_def group_at_def re_findall_def re_findall_group_def re_sub_def re_split_def
  re_search_def re_finditer_def scan.simps

lemmas ner_defs = ws_run_def clean_entity_def ner_false_positives_def is_valid_entity_def
  valid_entities_def strip_def split_ws_def

lemmas math_defs = ch_def one_of_def ascii_letter_def ascii_alnum_def greek_letter_def
  eq_class_def ineq_class_def ws_star_def pat_equation_def pat_dollars_def pat_scientific_def
  pat_fraction_def pat_power_def pat_greek_def pat_sum_def pat_function_def pat_derivative_def
  pat_partial_def pat_matrix_def pat_inequality_def patterns_def math_symbols_def
  math_false_positives_def leading_dollars_def trailing_dollars_def dollar_wrappers_def clean_expression_def
  is_valid_math_expression_def add_match_def collect_expressions_def ws_run_def strip_def
  contains_def find_def starts_with_def replace_char_def set_add_def

lemmas summary_defs = sentence_end_def math_span_def noise_def clean_text_for_summarization_def
  chunk_step_def split_text_into_chunks_def months_def importance_indicators_def decimals_def
  thousands_def number_re_def year_or_month_re_def score_sentence_importance_def
  extract_key_points_def magnitude_def number_patterns_def date_patterns_def
  context_start_def context_end_def context_around_def add_fact_def add_pattern_facts_def
  all_facts_def extract_facts_and_figures_def result_parts_def truncate_def
  create_comprehensive_summary_def unable_message_def too_short_message_def
  qualifying_sentences_def ranked_sentences_def fallback_facts_text_def
  comprehensive_fallback_summary_def summarize_chunk_def generate_summary_def
  slice_index_def slice_def slice_to_def split_char_def split_ws_def strip_def ws_run_def
  ws_star_def ch_def one_of_def contains_def find_def starts_with_def sort_desc_def

section \<open>Entity highlighting\<close>

lemma is_valid_entity_nonempty: "is_valid_entity rt t l \<Longrightarrow> t \<noteq> []"
  by (auto simp add: is_valid_entity_def clean_entity_def strip_def re_sub_def ws_run_def
      Plus_def match_at_def scan.simps)

lemma take_take_drop: "p \<le> s \<Longrightarrow> take p xs @ take (s - p) (drop p xs) = take s xs"
  using take_add [of p "s - p" xs] by simp

lemma foldr_chain:
  "chain text p A \<Longrightarrow>
   foldr (\<lambda>x h. highlight_step h x) A text = take p text @ wrap_spans text p (map span_of A)"
proof (induction A arbitrary: p)
  case Nil
  then show ?case by simp
next
  case (Cons x r)
  obtain s e t l where x: "x = (s, e, t, l)" by (cases x) auto
  from Cons.prems x have ps: "p \<le> s" and se: "s \<le> e" and el: "e \<le> length text"
    and t: "t = take (e - s) (drop s text)" and ch: "chain text e r"
    by (auto simp: span_in_text_def)
  have H: "foldr (\<lambda>x h. highlight_step h x) r text = take e text @ wrap_spans text e (map span_of r)"
    using Cons.IH [OF ch] .
  have len: "length (take e text) = e" using el by simp
  have a: "take s (take e text @ wrap_spans text e (map span_of r)) = take s text"
    using se el by (simp add: min_def)
  have b: "drop e (take e text @ wrap_spans text e (map span_of r)) = wrap_spans text e (map span_of r)"
    using len by simp
  have "foldr (\<lambda>x h. highlight_step h x) (x # r) text
      = highlight_step (take e text @ wrap_spans text e (map span_of r)) (s, e, t, l)"
    by (simp add: x H)
  also have "\<dots> = take s text @ u ''**'' @ t @ u ''**'' @ wrap_spans text e (map span_of r)"
    unfolding highlight_step_def prod.case a b ..
  also have "\<dots> = take p text @ wrap_spans text p (map span_of (x # r))"
    using t take_take_drop [OF ps, of "text"] by (simp add: x span_of_def)
  finally show ?case .
qed

lemma filter_key_single:
  "distinct (map f zs) \<Longrightarrow> k \<in> set zs \<Longrightarrow> filter (\<lambda>x. f k = f x) zs = [k]"
proof (induction zs)
  case Nil
  then show ?case by simp
next
  case (Cons z zs)
  show ?case
  proof (cases "k = z")
    case True
    have "filter (\<lambda>x. f z = f x) zs = []"
      using Cons.prems(1) by (auto simp: filter_empty_conv)
    then show ?thesis using True by simp
  next
    case False
    then have kin: "k \<in> set zs" using Cons.prems(2) by simp
    then have "f k \<in> f ` set zs" by simp
    then have "f k \<noteq> f z" using Cons.prems(1) by auto
    then show ?thesis using Cons.IH kin Cons.prems(1) by simp
  qed
qed

lemma sort_key_rev_distinct:
  assumes "distinct (map f xs)"
  shows "sort_key f (rev xs) = sort_key f xs"
proof (rule properties_for_sort_key)
  show "mset (sort_key f xs) = mset (rev xs)" by simp
next
  fix k assume "k \<in> set (sort_key f xs)"
  then have k: "k \<in> set xs" by simp
  have d1: "distinct (map f (sort_key f xs))"
    using assms by (metis distinct_map distinct_sort set_sort inj_on_def) 
  have d2: "distinct (map f (rev xs))" using assms by (simp add: rev_map [symmetric])
  show "filter (\<lambda>x. f k = f x) (sort_key f xs) = filter (\<lambda>x. f k = f x) (rev xs)"
    using filter_key_single [OF d1, of k] filter_key_single [OF d2, of k] k by simp
next
  show "sorted (map f (sort_key f xs))" by simp
qed


lemma sorted_wrt_disjoint_pairwise:
  assumes "sorted_wrt disjoint_spans V" "\<forall>x\<in>set V. fst x < fst (snd x)"
  shows "distinct (map fst V) \<and> (\<forall>x\<in>set V. \<forall>y\<in>set V. x \<noteq> y \<longrightarrow> disjoint_spans x y)"
  using assms
proof (induction V)
  case Nil
  then show ?case by simp
next
  case (Cons a V)
  have av: "\<forall>y\<in>set V. disjoint_spans a y" using Cons.prems(1) by simp
  have IH: "distinct (map fst V) \<and> (\<forall>x\<in>set V. \<forall>y\<in>set V. x \<noteq> y \<longrightarrow> disjoint_spans x y)"
    using Cons by simp
  have pos: "fst a < fst (snd a)" "\<forall>y\<in>set V. fst y < fst (snd y)" using Cons.prems(2) by simp_all
  have "fst a \<notin> fst ` set V"
  proof
    assume "fst a \<in> fst ` set V"
    then obtain y where y: "y \<in> set V" "fst y = fst a" by force
    with av pos show False by (fastforce simp: disjoint_spans_def)
  qed
  moreover have "\<forall>y\<in>set V. disjoint_spans y a"
    using av by (auto simp: disjoint_spans_def)
  ultimately show ?case using IH av by auto
qed

lemma chain_sorted:
  assumes "sorted (map fst A)" "distinct A"
    and "\<forall>x\<in>set A. fst x < fst (snd x) \<and> span_in_text text x"
    and "\<forall>x\<in>set A. \<forall>y\<in>set A. x \<noteq> y \<longrightarrow> disjoint_spans x y"
    and "\<forall>x\<in>set A. p \<le> fst x" "p \<le> length text"
  shows "chain text p A"
  using assms
proof (induction A arbitrary: p)
  case Nil
  then show ?case by simp
next
  case (Cons a A)
  have a: "fst a < fst (snd a)" "span_in_text text a" "p \<le> fst a" using Cons.prems by simp_all
  have el: "fst (snd a) \<le> length text" using a(2) by (auto simp: span_in_text_def)
  have nxt: "\<forall>y\<in>set A. fst (snd a) \<le> fst y"
  proof
    fix y assume y: "y \<in> set A"
    then have ne: "a \<noteq> y" using Cons.prems(2) by auto
    have d: "disjoint_spans a y" using Cons.prems(4) y ne by simp
    have le: "fst a \<le> fst y" using Cons.prems(1) y by simp
    have py: "fst y < fst (snd y)" using Cons.prems(3) y by simp
    show "fst (snd a) \<le> fst y" using d le py by (auto simp: disjoint_spans_def)
  qed
  have "chain text (fst (snd a)) A"
    using Cons.prems nxt el by (intro Cons.IH) simp_all
  then show ?case using a by simp
qed

lemma highlight_loop_wraps:
  assumes sw: "sorted_wrt disjoint_spans V"
    and ok: "\<forall>x\<in>set V. fst x < fst (snd x) \<and> span_in_text text x"
  shows "foldl highlight_step text (sort_desc fst V) = wrap_spans text 0 (map span_of (sort_key fst V))"
proof -
  have pw: "distinct (map fst V)" "\<forall>x\<in>set V. \<forall>y\<in>set V. x \<noteq> y \<longrightarrow> disjoint_spans x y"
    using sorted_wrt_disjoint_pairwise [OF sw] ok by simp_all
  have dV: "distinct V" using pw(1) by (simp add: distinct_map)
  have ch: "chain text 0 (sort_key fst V)"
    using ok pw(2) dV by (intro chain_sorted) simp_all
  have "sort_desc fst V = rev (sort_key fst V)"
    by (simp add: sort_desc_def sort_key_rev_distinct [OF pw(1)])
  then have "foldl highlight_step text (sort_desc fst V)
      = foldr (\<lambda>x h. highlight_step h x) (sort_key fst V) text"
    by (simp add: foldr_conv_foldl)
  then show ?thesis using foldr_chain [OF ch] by simp
qed

text \<open>
  Claim C3. When the validated spans of the tagger are computed against the text and do
  not overlap pairwise, highlighting (the replacements applied in descending order of
  start) yields the original text with each span's substring wrapped in \<open>**\<close> and
  every character outside the spans unchanged; with no validated span the output is
  the input.
\<close>

theorem highlight_wraps_spans:
  assumes "tag text = Inr ents"
    and "sorted_wrt disjoint_spans (valid_entities rt ents)"
    and "list_all (span_in_text text) (valid_entities rt ents)"
  shows "highlight_entities_in_text rt (Some tag) text
           = wrap_spans text 0 (map span_of (sort_key fst (valid_entities rt ents)))
         \<and> (valid_entities rt ents = [] \<longrightarrow> highlight_entities_in_text rt (Some tag) text = text)"
proof -
  let ?V = "valid_entities rt ents"
  have ok: "\<forall>x\<in>set ?V. fst x < fst (snd x) \<and> span_in_text text x"
  proof
    fix x assume x: "x \<in> set ?V"
    obtain s e t l where xe: "x = (s, e, t, l)" by (cases x) auto
    have sp: "span_in_text text x" using assms(3) x by (simp add: list_all_iff)
    have "is_valid_entity rt t l" using x xe by (simp add: valid_entities_def)
    then have "t \<noteq> []" by (rule is_valid_entity_nonempty)
    then have "s < e" using sp xe by (auto simp: span_in_text_def)
    then show "fst x < fst (snd x) \<and> span_in_text text x" using sp xe by simp
  qed
  have main: "highlight_entities_in_text rt (Some tag) text
           = wrap_spans text 0 (map span_of (sort_key fst ?V))"
    using highlight_loop_wraps [OF assms(2) ok] assms(1)
    by (simp add: highlight_entities_in_text_def)
  show ?thesis using main by auto
qed

theorem highlight_wraps_spans_witness:
  "highlight_entities_in_text plain_rt (Some paris_tagger) (u ''Paris is great'') = u ''**Paris** **is** **great**''"
proof -
  have v: "valid_entities plain_rt [(9, 14, u ''great'', u ''ADJ''), (6, 8, u ''is'', u ''X''), (0, 5, u ''Paris'', u ''GPE'')]
     = [(9, 14, u ''great'', u ''ADJ''), (6, 8, u ''is'', u ''X''), (0, 5, u ''Paris'', u ''GPE'')]"
    by (simp add: ner_defs re_defs char_defs plain_rt_def)
  have a: "paris_tagger (u ''Paris is great'') = Inr [(9, 14, u ''great'', u ''ADJ''), (6, 8, u ''is'', u ''X''), (0, 5, u ''Paris'', u ''GPE'')]"
    by (simp add: paris_tagger_def)
  have b: "sorted_wrt disjoint_spans (valid_entities plain_rt [(9, 14, u ''great'', u ''ADJ''), (6, 8, u ''is'', u ''X''), (0, 5, u ''Paris'', u ''GPE'')])"
    unfolding v by (simp add: disjoint_spans_def)
  have c: "list_all (span_in_text (u ''Paris is great'')) (valid_entities plain_rt [(9, 14, u ''great'', u ''ADJ''), (6, 8, u ''is'', u ''X''), (0, 5, u ''Paris'', u ''GPE'')])"
    unfolding v by (simp add: span_in_text_def u_def)
  show ?thesis
    using highlight_wraps_spans [of paris_tagger "u ''Paris is great''" _ plain_rt, OF a b c] unfolding v
    by (simp add: span_of_def u_def)
qed

text \<open>
  Claim C10. When the tagger is unavailable, or tagging raises, highlighting returns the
  input text unchanged. (The loop and the validity filter themselves cannot raise.)
\<close>

theorem highlight_failure_returns_input:
  "nlp = None \<or> (\<exists>tag e. nlp = Some tag \<and> tag text = Inl e)
   \<Longrightarrow> highlight_entities_in_text rt nlp text = text"
  by (auto simp: highlight_entities_in_text_def)

theorem highlight_failure_returns_input_witness:
  "highlight_entities_in_text plain_rt None (u ''Paris is great'') = u ''Paris is great''
   \<and> highlight_entities_in_text plain_rt (Some failing_tagger) (u ''Paris is great'')
       = u ''Paris is great''"
proof -
  have f: "\<exists>tag e. Some failing_tagger = Some tag \<and> tag (u ''Paris is great'') = Inl e"
    by (simp add: failing_tagger_def)
  show ?thesis
    using highlight_failure_returns_input [of None "u ''Paris is great''" plain_rt]
      highlight_failure_returns_input [of "Some failing_tagger" "u ''Paris is great''" plain_rt] f
    by simp
qed

section \<open>Matches are made of characters of the subject\<close>

lemma star_greedy_subset:
  assumes f: "\<And>st st'. st' \<in> set (f st) \<Longrightarrow> set (snd st') \<subseteq> set (snd st)"
  shows "st' \<in> set (star_greedy n f st) \<Longrightarrow> set (snd st') \<subseteq> set (snd st)"
proof (induction n arbitrary: st)
  case 0
  then show ?case by simp
next
  case (Suc n)
  from Suc.prems consider "st' = st"
    | st1 where "st1 \<in> set (f st)" "st' \<in> set (star_greedy n f st1)"
    by auto
  then show ?case
  proof cases
    case 1
    then show ?thesis by simp
  next
    case 2
    then show ?thesis using f [of st1 st] Suc.IH [of st1] by blast
  qed
qed

lemma star_lazy_subset:
  assumes f: "\<And>st st'. st' \<in> set (f st) \<Longrightarrow> set (snd st') \<subseteq> set (snd st)"
  shows "st' \<in> set (star_lazy n f st) \<Longrightarrow> set (snd st') \<subseteq> set (snd st)"
proof (induction n arbitrary: st)
  case 0
  then show ?case by simp
next
  case (Suc n)
  from Suc.prems consider "st' = st"
    | st1 where "st1 \<in> set (f st)" "st' \<in> set (star_lazy n f st1)"
    by auto
  then show ?case
  proof cases
    case 1
    then show ?thesis by simp
  next
    case 2
    then show ?thesis using f [of st1 st] Suc.IH [of st1] by blast
  qed
qed

lemma rmatch_subset: "st' \<in> set (rmatch r st) \<Longrightarrow> set (snd st') \<subseteq> set (snd st)"
proof (induction r arbitrary: st st')
  case (Cls p)
  then show ?case by (cases "snd st") (auto split: if_splits)
next
  case Eps
  then show ?case by simp
next
  case (Seq a b)
  from Seq.prems obtain st1 where "st1 \<in> set (rmatch a st)" "st' \<in> set (rmatch b st1)"
    by auto
  then show ?case using Seq.IH by blast
next
  case (Alt a b)
  from Alt.prems have "st' \<in> set (rmatch a st) \<or> st' \<in> set (rmatch b st)" by simp
  then show ?case using Alt.IH by blast
next
  case (Star a)
  then show ?case using star_greedy_subset [of "rmatch a"] by simp
next
  case (LazyStar a)
  then show ?case using star_lazy_subset [of "rmatch a"] by simp
next
  case (Look p)
  then show ?case by (auto split: if_splits)
qed

lemma match_at_subset: "match_at r pv s = Some (n, a) \<Longrightarrow> set a \<subseteq> set s"
  by (auto simp: match_at_def split: list.splits dest: in_set_takeD)

lemma group_at_subset:
  assumes "group_at pre grp post pv s = Some (n, a)"
  shows "set a \<subseteq> set s"
proof -
  let ?L = "concat (map (\<lambda>s1. concat (map (\<lambda>s2. map (\<lambda>s3. (s1, s2, s3)) (rmatch post s2))
                                        (rmatch grp s1)))
                       (rmatch pre (pv, s)))"
  from assms obtain s1 s2 s3 rest where L: "?L = (s1, s2, s3) # rest"
    and a: "a = take (length (snd s1) - length (snd s2)) (snd s1)"
    by (auto simp: group_at_def split: list.splits)
  have "(s1, s2, s3) \<in> set ?L" using L by simp
  then have "s1 \<in> set (rmatch pre (pv, s))" by auto
  then have "set (snd s1) \<subseteq> set s" using rmatch_subset [of s1 pre "(pv, s)"] by simp
  then show ?thesis using a by (auto dest: in_set_takeD)
qed

lemma scan_subset:
  assumes mf: "\<And>pv s n a. mf pv s = Some (n, a) \<Longrightarrow> set a \<subseteq> set s"
  shows "(Inr a \<in> set (scan mf k pv s) \<longrightarrow> set a \<subseteq> set s)
       \<and> (Inl c \<in> set (scan mf k pv s) \<longrightarrow> c \<in> set s)"
proof (induction s arbitrary: k pv)
  case Nil
  show ?case
  proof (cases "mf pv []")
    case None
    then show ?thesis by (simp add: scan_Nil_None)
  next
    case (Some na)
    obtain n b where na: "na = (n, b)" by (cases na)
    have "set b \<subseteq> set []" using mf [of pv "[]" n b] Some na by simp
    then show ?thesis using Some na by (simp add: scan_Nil_Some)
  qed
next
  case (Cons x xs)
  show ?case
  proof (cases "0 < k")
    case True
    then show ?thesis using Cons.IH [of "k - 1" "Some x"] by (auto simp: scan_Cons_skip)
  next
    case False
    then have k: "k = 0" by simp
    show ?thesis
    proof (cases "mf pv (x # xs)")
      case None
      then show ?thesis using k Cons.IH [of 0 "Some x"] by (auto simp: scan_Cons_None)
    next
      case (Some na)
      obtain n b where na: "na = (n, b)" by (cases na)
      have b: "set b \<subseteq> set (x # xs)" using mf [of pv "x # xs" n b] Some na by simp
      have e: "scan mf 0 pv (x # xs) =
         (if n = 0 then Inr b # Inl x # scan mf 0 (Some x) xs
          else Inr b # scan mf (n - 1) (Some x) xs)"
        using Some na by (simp add: scan_Cons_Some)
      show ?thesis
        unfolding k e
        using b Cons.IH [of 0 "Some x"] Cons.IH [of "n - 1" "Some x"]
        by (cases "n = 0") auto
    qed
  qed
qed

lemma matches_of_set: "a \<in> set (matches_of ts) \<longleftrightarrow> Inr a \<in> set ts"
  by (induction ts rule: matches_of.induct) auto

lemma pattern_findall_subset: "a \<in> set (pattern_findall p s) \<Longrightarrow> set a \<subseteq> set s"
proof (cases p)
  case (Plain r)
  assume "a \<in> set (pattern_findall p s)"
  then have "Inr a \<in> set (scan (match_at r) 0 None s)"
    using Plain by (simp add: re_findall_def matches_of_set)
  then show ?thesis using scan_subset [of "match_at r" a 0 None s] match_at_subset by blast
next
  case (Grouped pre grp post)
  assume "a \<in> set (pattern_findall p s)"
  then have "Inr a \<in> set (scan (group_at pre grp post) 0 None s)"
    using Grouped by (simp add: re_findall_group_def matches_of_set)
  then show ?thesis
    using scan_subset [of "group_at pre grp post" a 0 None s] group_at_subset by blast
qed

lemma re_sub_subset: "set (re_sub r repl s) \<subseteq> set s \<union> set repl"
proof
  fix c assume "c \<in> set (re_sub r repl s)"
  then obtain t where t: "t \<in> set (scan (match_at r) 0 None s)"
    and c: "c \<in> set (case t of Inl c \<Rightarrow> [c] | Inr m \<Rightarrow> repl)"
    by (auto simp: re_sub_def)
  show "c \<in> set s \<union> set repl"
  proof (cases t)
    case (Inl d)
    then have "d \<in> set s"
      using t scan_subset [of "match_at r" undefined 0 None s d] match_at_subset by blast
    then show ?thesis using c Inl by simp
  next
    case (Inr m)
    then show ?thesis using c by simp
  qed
qed

lemma strip_subset: "set (strip s) \<subseteq> set s"
  by (auto simp: strip_def dest!: set_dropWhileD)

lemma replace_char_absent: "a \<notin> set s \<Longrightarrow> replace_char a b s = s"
  by (induction s) (auto simp: replace_char_def)

lemma clean_expression_subset:
  assumes "215 \<notin> set e" "247 \<notin> set e"
  shows "set (clean_expression e) \<subseteq> set e \<union> {32}"
proof -
  let ?a = "re_sub ws_run (u '' '') (strip e)"
  let ?b = "re_sub dollar_wrappers [] ?a"
  have a: "set ?a \<subseteq> set e \<union> {32}"
    using re_sub_subset [of ws_run "u '' ''" "strip e"] strip_subset [of e]
    by (auto simp: u_def)
  have b: "set ?b \<subseteq> set e \<union> {32}"
    using re_sub_subset [of dollar_wrappers "[]" ?a] a by auto
  have "215 \<notin> set ?b" "247 \<notin> set ?b" using b assms by auto
  then have "clean_expression e = ?b"
    by (simp add: clean_expression_def Let_def replace_char_absent)
  then show ?thesis using b by simp
qed

lemma valid_has_symbol:
  "is_valid_math_expression rt e \<Longrightarrow> \<exists>c\<in>set (clean_expression e). c \<in> set math_symbols"
  by (auto simp: is_valid_math_expression_def Let_def list_ex_iff split: if_splits)

lemma no_symbol_invalid:
  assumes "\<forall>c\<in>set e. c \<notin> set math_symbols \<and> c \<noteq> 215 \<and> c \<noteq> 247"
  shows "\<not> is_valid_math_expression rt e"
proof
  assume "is_valid_math_expression rt e"
  then obtain c where c: "c \<in> set (clean_expression e)" "c \<in> set math_symbols"
    using valid_has_symbol by blast
  have "215 \<notin> set e" "247 \<notin> set e" using assms by auto
  then have "c \<in> set e \<or> c = 32" using clean_expression_subset [of e] c(1) by auto
  moreover have "32 \<notin> set math_symbols" by (simp add: math_symbols_def u_def)
  ultimately show False using assms c(2) by auto
qed

lemma foldl_add_match_invalid:
  "\<forall>m\<in>set ms. \<not> is_valid_math_expression rt m \<Longrightarrow> foldl (add_match rt) acc ms = acc"
  by (induction ms arbitrary: acc) (auto simp: add_match_def)

lemma collect_no_symbols:
  assumes "\<forall>c\<in>set text. c \<notin> set math_symbols \<and> c \<noteq> 215 \<and> c \<noteq> 247"
  shows "collect_expressions rt text = []"
proof -
  have inv: "\<And>p. \<forall>m\<in>set (pattern_findall p text). \<not> is_valid_math_expression rt m"
  proof
    fix p m assume "m \<in> set (pattern_findall p text)"
    then have "set m \<subseteq> set text" by (rule pattern_findall_subset)
    then show "\<not> is_valid_math_expression rt m" using assms no_symbol_invalid [of m rt] by blast
  qed
  have "\<And>ps acc. foldl (\<lambda>expressions pattern. foldl (add_match rt) expressions (pattern_findall pattern text)) acc ps = acc"
  proof -
    fix ps :: "pattern list" and acc
    show "foldl (\<lambda>expressions pattern. foldl (add_match rt) expressions (pattern_findall pattern text)) acc ps = acc"
      by (induction ps arbitrary: acc) (simp_all add: foldl_add_match_invalid inv)
  qed
  then show ?thesis by (simp add: collect_expressions_def)
qed

section \<open>Extraction of expressions: validity, caps, duplicates\<close>

lemma collect_emc2:
  "collect_expressions rt (u ''E = mc^2. E = mc^2.'') = [u ''E = mc^2. E = mc^2.'', u ''mc^2'']"
  by (simp add: math_defs re_defs char_defs)

lemma extract_emc2:
  "extract_expressions rt (u ''E = mc^2. E = mc^2.'') = [u ''E = mc^2. E = mc^2.'', u ''mc^2'']"
proof -
  let ?a = "u ''E = mc^2. E = mc^2.''" and ?b = "u ''mc^2''"
  have "list_of_set rt [?a, ?b] = [?a, ?b] \<or> list_of_set rt [?a, ?b] = [?b, ?a]"
    by (simp add: list_of_set_def)
  moreover have "sort_desc length [?a, ?b] = [?a, ?b]" by (simp add: sort_desc_def u_def)
  moreover have "sort_desc length [?b, ?a] = [?a, ?b]" by (simp add: sort_desc_def u_def)
  ultimately show ?thesis
    unfolding extract_expressions_def collect_emc2 by auto
qed

lemma collect_times:
  "collect_expressions plain_rt (u ''3 '' @ [215] @ u '' 105'') = [u ''3 * 105'']"
  by (simp add: math_defs re_defs char_defs plain_rt_def)

lemma collect_dollars:
  "collect_expressions rt (u ''$$ x + y = z $$'') = [u ''x + y = z'']"
  by (simp add: math_defs re_defs char_defs)

lemma distinct_set_add: "distinct xs \<Longrightarrow> distinct (set_add x xs)"
  by (simp add: set_add_def)

lemma distinct_foldl_add_match: "distinct acc \<Longrightarrow> distinct (foldl (add_match rt) acc ms)"
  by (induction ms arbitrary: acc) (simp_all add: add_match_def distinct_set_add)

lemma distinct_collect: "distinct (collect_expressions rt text)"
proof -
  have "\<And>acc. distinct acc \<Longrightarrow> distinct (foldl (\<lambda>expressions pattern.
      foldl (add_match rt) expressions (pattern_findall pattern text)) acc ps)" for ps
    by (induction ps) (simp_all add: distinct_foldl_add_match)
  then show ?thesis by (simp add: collect_expressions_def)
qed

lemma distinct_extract: "distinct (extract_expressions rt text)"
  by (simp add: extract_expressions_def sort_desc_def list_of_set_def distinct_collect)

lemma update_set:
  "(k', v') \<in> set (AList.update k v al) \<Longrightarrow> (k', v') = (k, v) \<or> (k', v') \<in> set al"
  by (induction al) (auto split: if_splits)

lemma foldl_update_values:
  assumes "\<forall>(k, v)\<in>set acc. P v" "\<forall>(k, v)\<in>set xs. P v"
  shows "\<forall>(k, v)\<in>set (foldl (\<lambda>d (label, es). AList.update (f label) es d) acc xs). P v"
  using assms
proof (induction xs arbitrary: acc)
  case Nil
  then show ?case by simp
next
  case (Cons x xs)
  obtain l es where x: "x = (l, es)" by (cases x)
  have "\<forall>(k, v)\<in>set (AList.update (f l) es acc). P v"
    using Cons.prems x by (auto dest!: update_set)
  then show ?case using Cons.IH [of "AList.update (f l) es acc"] Cons.prems(2) x by simp
qed

lemma extract_entities_cap: "\<forall>(label, es)\<in>set (extract_entities rt nlp text). length es \<le> 20"
proof (cases nlp)
  case None
  then show ?thesis by (simp add: extract_entities_def)
next
  case (Some tag)
  show ?thesis
  proof (cases "tag text")
    case (Inl e)
    then show ?thesis using Some by (cases e) (simp add: extract_entities_def)
  next
    case (Inr ents)
    let ?limited = "map (\<lambda>(label, es). (label, sorted_unique20 rt es))
      (fst (foldl (add_entity rt) ([], []) ents))"
    have "\<forall>(k, v)\<in>set ?limited. length v \<le> 20"
      by (auto simp: sorted_unique20_def)
    then have "\<forall>(k, v)\<in>set (foldl (\<lambda>d (label, es). AList.update (readable_label label) es d)
        [] ?limited). length v \<le> 20"
      by (intro foldl_update_values) simp_all
    then show ?thesis using Some Inr by (simp add: extract_entities_def Let_def)
  qed
qed

lemma extract_formulas_cap: "length (extract_formulas_with_context rt text cc) \<le> 30"
  by (simp add: extract_formulas_with_context_def)

lemma extract_expressions_cap: "length (extract_expressions rt text) \<le> 50"
  by (simp add: extract_expressions_def)

lemma by_type_paris:
  "foldl (add_entity plain_rt) ([], [])
     [(9, 14, u ''great'', u ''ADJ''), (6, 8, u ''is'', u ''X''), (0, 5, u ''Paris'', u ''GPE'')]
   = ([(u ''ADJ'', [u ''great'']), (u ''X'', [u ''is'']), (u ''GPE'', [u ''Paris''])],
      [(u ''paris'', u ''GPE''), (u ''is'', u ''X''), (u ''great'', u ''ADJ'')])"
  by (simp add: add_entity_def ner_defs re_defs char_defs plain_rt_def dict_get_def
      Let_def)

lemma ents_paris: "extract_entities plain_rt (Some paris_tagger) (u ''Paris is great'')
   = [(u ''ADJ'', [u ''great'']), (u ''X'', [u ''is'']), (u ''Locations'', [u ''Paris''])]"
  unfolding extract_entities_def paris_tagger_def option.case sum.case by_type_paris
  by (simp add: sorted_unique20_def list_of_set_def set_add_def readable_label_def
      label_mapping_def Let_def u_def)

text \<open>
  Claim C5, amended. \<open>is_valid_math_expression\<close> returns false exactly when the cleaned
  string is shorter than 3 or longer than 200, or has no character of \<open>math_symbols\<close>,
  or has fewer than 2 alphanumeric characters, or its lower-cased form contains a
  false-positive word. A text without any character of \<open>math_symbols\<close> and without the
  signs U+00D7 and U+00F7, which cleaning turns into \<open>*\<close> and \<open>/\<close>, yields no expression.
\<close>

theorem valid_math_expression_rule:
  "(\<not> is_valid_math_expression rt expr \<longleftrightarrow>
      (length (clean_expression expr) < 3 \<or> 200 < length (clean_expression expr)
       \<or> (\<forall>c\<in>set (clean_expression expr). c \<notin> set math_symbols)
       \<or> length (filter (isalnum rt) (clean_expression expr)) < 2
       \<or> (\<exists>fp\<in>set math_false_positives. contains fp (lower rt (clean_expression expr)))))
   \<and> ((\<forall>c\<in>set text. c \<notin> set math_symbols \<and> c \<noteq> 215 \<and> c \<noteq> 247)
        \<longrightarrow> extract_expressions rt text = [])"
proof -
  have a: "\<not> is_valid_math_expression rt expr \<longleftrightarrow>
      (length (clean_expression expr) < 3 \<or> 200 < length (clean_expression expr)
       \<or> (\<forall>c\<in>set (clean_expression expr). c \<notin> set math_symbols)
       \<or> length (filter (isalnum rt) (clean_expression expr)) < 2
       \<or> (\<exists>fp\<in>set math_false_positives. contains fp (lower rt (clean_expression expr))))"
    by (auto simp: is_valid_math_expression_def Let_def list_ex_iff)
  have b: "(\<forall>c\<in>set text. c \<notin> set math_symbols \<and> c \<noteq> 215 \<and> c \<noteq> 247)
        \<longrightarrow> extract_expressions rt text = []"
    by (simp add: extract_expressions_def collect_no_symbols list_of_set_def sort_desc_def)
  show ?thesis using a b by blast
qed

theorem valid_math_expression_rule_witness:
  "is_valid_math_expression plain_rt (u ''x + y = z'')
   \<and> extract_expressions plain_rt (u ''plain words only'') = []"
proof -
  have h: "\<forall>c\<in>set (u ''plain words only''). c \<notin> set math_symbols \<and> c \<noteq> 215 \<and> c \<noteq> 247"
    by (simp add: u_def math_symbols_def)
  have c: "clean_expression (u ''x + y = z'') = u ''x + y = z''"
    by (simp add: math_defs re_defs char_defs)
  have v: "\<not> (length (clean_expression (u ''x + y = z'')) < 3
       \<or> 200 < length (clean_expression (u ''x + y = z''))
       \<or> (\<forall>c\<in>set (clean_expression (u ''x + y = z'')). c \<notin> set math_symbols)
       \<or> length (filter (isalnum plain_rt) (clean_expression (u ''x + y = z''))) < 2
       \<or> (\<exists>fp\<in>set math_false_positives.
             contains fp (lower plain_rt (clean_expression (u ''x + y = z'')))))"
    unfolding c
    by (simp add: math_symbols_def math_false_positives_def contains_def find_def
        starts_with_def char_defs)
  show ?thesis
    using valid_math_expression_rule [of plain_rt "u ''x + y = z''" "u ''plain words only''"] h v
    by blast
qed

text \<open>
  The claim as stated fails: the text \<open>3 \<times> 105\<close> has no character of \<open>math_symbols\<close>
  (the multiplication sign U+00D7 is not one of them), the scientific-notation pattern
  matches it, and cleaning turns the sign into \<open>*\<close>, which is a symbol.
\<close>

theorem times_sign_counterexample:
  "list_all (\<lambda>c. c \<notin> set math_symbols) (u ''3 '' @ [215] @ u '' 105'')
   \<and> extract_expressions plain_rt (u ''3 '' @ [215] @ u '' 105'') = [u ''3 * 105'']"
proof -
  have "list_all (\<lambda>c. c \<notin> set math_symbols) (u ''3 '' @ [215] @ u '' 105'')"
    by (simp add: u_def math_symbols_def)
  moreover have "extract_expressions plain_rt (u ''3 '' @ [215] @ u '' 105'') = [u ''3 * 105'']"
    unfolding extract_expressions_def collect_times
    by (simp add: list_of_set_def sort_desc_def)
  ultimately show ?thesis by simp
qed

text \<open>
  Claim C7. \<open>extract_expressions\<close> returns at most 50 items,
  \<open>extract_formulas_with_context\<close> at most 30, and every list of the dictionary that
  \<open>extract_entities\<close> returns has at most 20 entries.
\<close>

theorem extraction_caps:
  "length (extract_expressions rt text) \<le> 50
   \<and> length (extract_formulas_with_context rt text context_chars) \<le> 30
   \<and> (\<forall>(label, es)\<in>set (extract_entities rt nlp text). length es \<le> 20)"
  using extract_expressions_cap extract_formulas_cap extract_entities_cap by blast

theorem extraction_caps_witness:
  "length (extract_expressions plain_rt (u ''Paris is great'')) \<le> 50
   \<and> length (extract_formulas_with_context plain_rt (u ''Paris is great'') 100) \<le> 30
   \<and> (u ''Locations'', [u ''Paris''])
        \<in> set (extract_entities plain_rt (Some paris_tagger) (u ''Paris is great''))
   \<and> length [u ''Paris''] \<le> 20"
proof -
  have m: "(u ''Locations'', [u ''Paris''])
        \<in> set (extract_entities plain_rt (Some paris_tagger) (u ''Paris is great''))"
    unfolding ents_paris by simp
  show ?thesis
    using extraction_caps [of plain_rt "u ''Paris is great''" 100 "Some paris_tagger"] m
    by auto
qed

text \<open>
  Claim C8, amended. The list \<open>extract_expressions\<close> returns has no two equal strings. For
  the text \<open>E = mc^2. E = mc^2.\<close> it is the whole text, which is one match of the
  equation pattern (the full stop and the space are in its character class), and
  \<open>mc^2\<close>; each appears once.
\<close>

theorem extract_expressions_distinct:
  "distinct (extract_expressions rt text)
   \<and> extract_expressions rt (u ''E = mc^2. E = mc^2.'')
       = [u ''E = mc^2. E = mc^2.'', u ''mc^2'']"
  using distinct_extract extract_emc2 by blast

text \<open>The claim as stated fails: \<open>E = mc^2\<close> is not in that list at all.\<close>

theorem emc2_counterexample:
  "count_list (extract_expressions plain_rt (u ''E = mc^2. E = mc^2.'')) (u ''E = mc^2'') = 0"
  unfolding extract_emc2 by (simp add: u_def)

section \<open>Cleaning an expression\<close>

lemma star_cls_head:
  assumes f: "\<And>st. f st = (case snd st of [] \<Rightarrow> [] | c # cs \<Rightarrow> if p c then [(Some c, cs)] else [])"
  shows "length s \<le> n \<Longrightarrow> \<exists>pv' rest. star_greedy n f (pv, s) = (pv', dropWhile p s) # rest
      \<and> (\<forall>st\<in>set rest. snd st \<noteq> [] \<and> p (hd (snd st)))"
proof (induction s arbitrary: n pv)
  case Nil
  then show ?case by (cases n) (simp_all add: f)
next
  case (Cons c cs)
  then obtain m where n: "n = Suc m" and m: "length cs \<le> m" by (cases n) auto
  show ?case
  proof (cases "p c")
    case True
    from Cons.IH [OF m, of "Some c"] obtain pv' rest where
      r: "star_greedy m f (Some c, cs) = (pv', dropWhile p cs) # rest"
      and rest: "\<forall>st\<in>set rest. snd st \<noteq> [] \<and> p (hd (snd st))" by blast
    have "star_greedy n f (pv, c # cs) = (pv', dropWhile p cs) # (rest @ [(pv, c # cs)])"
      using True r by (simp add: n f)
    moreover have "\<forall>st\<in>set (rest @ [(pv, c # cs)]). snd st \<noteq> [] \<and> p (hd (snd st))"
      using True rest by auto
    ultimately show ?thesis using True by (metis dropWhile.simps(2))
  next
    case False
    then show ?thesis by (simp add: n f)
  qed
qed

lemma rmatch_ws_star:
  "\<exists>pv' rest. rmatch (Star (Cls p)) (pv, s) = (pv', dropWhile p s) # rest
      \<and> (\<forall>st\<in>set rest. snd st \<noteq> [] \<and> p (hd (snd st)))"
  using star_cls_head [of "rmatch (Cls p)" p s "length s" pv] by simp

lemma match_at_ws_run:
  "match_at ws_run pv (c # cs) =
     (if isspace c then Some (Suc (length (takeWhile isspace cs)),
                               c # takeWhile isspace cs)
      else None)"
proof (cases "isspace c")
  case True
  obtain pv' rest where r: "rmatch (Star (Cls isspace)) (Some c, cs) = (pv', dropWhile isspace cs) # rest"
    using rmatch_ws_star [of isspace "Some c" cs] by blast
  have l: "length cs - length (dropWhile isspace cs) = length (takeWhile isspace cs)"
    by (metis add_diff_cancel_right' length_append takeWhile_dropWhile_id)
  have l2: "Suc (length cs) - length (dropWhile isspace cs) = Suc (length (takeWhile isspace cs))"
    using l by (metis Suc_diff_le length_dropWhile_le)
  have "take (length (takeWhile isspace cs)) cs = takeWhile isspace cs"
    by (metis append_eq_conv_conj takeWhile_dropWhile_id)
  then show ?thesis using True r l2 by (simp add: match_at_def ws_run_def Plus_def)
next
  case False
  then show ?thesis by (simp add: match_at_def ws_run_def Plus_def)
qed

lemma match_at_ws_run_Nil: "match_at ws_run pv [] = None"
  by (simp add: match_at_def ws_run_def Plus_def)

lemma scan_skip:
  "k \<le> length s \<Longrightarrow>
   \<exists>pv'. scan mf k pv s = scan mf 0 pv' (drop k s) \<and> (0 < k \<longrightarrow> pv' \<noteq> None) \<and> (k = 0 \<longrightarrow> pv' = pv)"
proof (induction s arbitrary: k pv)
  case Nil
  then show ?case by simp
next
  case (Cons c cs)
  show ?case
  proof (cases k)
    case 0
    then show ?thesis by simp
  next
    case (Suc j)
    then have "j \<le> length cs" using Cons.prems by simp
    from Cons.IH [OF this, of "Some c"] obtain pv' where
      "scan mf j (Some c) cs = scan mf 0 pv' (drop j cs)" "0 < j \<longrightarrow> pv' \<noteq> None" "j = 0 \<longrightarrow> pv' = Some c"
      by blast
    then show ?thesis using Suc by (cases "j = 0") (auto simp: scan_Cons_skip)
  qed
qed

lemma sub_ws_collapse:
  "concat (map (case_sum (\<lambda>c. [c]) (\<lambda>m. [32])) (scan (match_at ws_run) 0 pv s)) = collapse_ws s"
proof (induction s arbitrary: pv rule: collapse_ws.induct)
  case 1
  then show ?case by (simp add: scan_Nil_None match_at_ws_run_Nil)
next
  case (2 c cs)
  show ?case
  proof (cases "isspace c")
    case True
    let ?j = "length (takeWhile isspace cs)"
    have m: "match_at ws_run pv (c # cs) = Some (Suc ?j, c # takeWhile isspace cs)"
      using True by (simp add: match_at_ws_run)
    have j: "?j \<le> length cs" by (rule length_takeWhile_le)
    obtain pv' where sk: "scan (match_at ws_run) ?j (Some c) cs
        = scan (match_at ws_run) 0 pv' (drop ?j cs)"
      using scan_skip [OF j, of "match_at ws_run" "Some c"] by blast
    have d: "drop ?j cs = dropWhile isspace cs" by (simp add: dropWhile_eq_drop)
    have "scan (match_at ws_run) 0 pv (c # cs)
        = Inr (c # takeWhile isspace cs) # scan (match_at ws_run) 0 pv' (dropWhile isspace cs)"
      using scan_Cons_Some [of "match_at ws_run" pv c cs, OF m] sk d by simp
    then show ?thesis using True "2.IH"(1) [OF True, of pv'] by simp
  next
    case False
    have m: "match_at ws_run pv (c # cs) = None" using False by (simp add: match_at_ws_run)
    show ?thesis using False "2.IH"(2) [OF False, of "Some c"] scan_Cons_None [of "match_at ws_run" pv c cs, OF m] by simp
  qed
qed

lemma re_sub_ws_run: "re_sub ws_run (u '' '') s = collapse_ws s"
  using sub_ws_collapse [of None s] by (simp add: re_sub_def u_def)

lemma collapse_ws_spaces: "c \<in> set (collapse_ws s) \<Longrightarrow> isspace c \<Longrightarrow> c = 32"
  by (induction s rule: collapse_ws.induct) (auto split: if_splits)

lemma dollars_lit: "u ''$$'' = [36, 36]"
  by (simp add: u_def)

lemma not_space_dollar: "\<not> isspace 36"
  by (simp add: isspace_def)

lemma ends_with_iff: "ends_with D s \<longleftrightarrow> (\<exists>a. s = a @ D)"
proof
  assume "ends_with D s"
  then have t: "take (length D) (rev s) = rev D" by (simp add: ends_with_def starts_with_def)
  have "rev s = take (length D) (rev s) @ drop (length D) (rev s)" by simp
  then have "rev s = rev D @ drop (length D) (rev s)" using t by simp
  then have "s = rev (drop (length D) (rev s)) @ D" by (metis rev_append rev_rev_ident)
  then show "\<exists>a. s = a @ D" by blast
next
  assume "\<exists>a. s = a @ D"
  then show "ends_with D s" by (auto simp: ends_with_def starts_with_def)
qed

lemma strip_trailing_append:
  "strip_trailing_dollars (a @ u ''$$'') = rev (dropWhile isspace (rev a))"
proof -
  have "ends_with (u ''$$'') (a @ u ''$$'')" by (auto simp: ends_with_iff)
  then show ?thesis by (simp add: strip_trailing_dollars_def dollars_lit)
qed

lemma strip_trailing_all:
  assumes "dropWhile isspace s = u ''$$''"
  shows "strip_trailing_dollars s = []"
proof -
  have s: "s = takeWhile isspace s @ u ''$$''" using assms by (metis takeWhile_dropWhile_id)
  have "dropWhile isspace (rev (takeWhile isspace s)) = []"
    by (simp add: dropWhile_eq_Nil_conv) (metis set_takeWhileD)
  then show ?thesis using strip_trailing_append [of "takeWhile isspace s"] s by simp
qed

lemma strip_trailing_step:
  assumes "dropWhile isspace (c # cs) \<noteq> u ''$$''"
  shows "strip_trailing_dollars (c # cs) = c # strip_trailing_dollars cs"
proof (cases "ends_with (u ''$$'') (c # cs)")
  case True
  then obtain a where a: "c # cs = a @ u ''$$''" by (auto simp: ends_with_iff)
  show ?thesis
  proof (cases a)
    case Nil
    then have "c # cs = u ''$$''" using a by simp
    then have "dropWhile isspace (c # cs) = u ''$$''"
      by (simp add: dollars_lit not_space_dollar)
    then show ?thesis using assms by simp
  next
    case (Cons x a')
    then have x: "x = c" and cs: "cs = a' @ u ''$$''" using a by simp_all
    have l: "strip_trailing_dollars (c # cs) = rev (dropWhile isspace (rev a' @ [c]))"
      using strip_trailing_append [of "c # a'"] cs by simp
    have r: "strip_trailing_dollars cs = rev (dropWhile isspace (rev a'))"
      using strip_trailing_append [of a'] cs by simp
    show ?thesis
    proof (cases "\<forall>y\<in>set a'. isspace y")
      case True
      have nc: "\<not> isspace c"
      proof
        assume c: "isspace c"
        have "dropWhile isspace (c # a' @ u ''$$'') = u ''$$''"
          using c True by (simp add: dropWhile_append dollars_lit not_space_dollar)
        then show False using assms cs by simp
      qed
      have "dropWhile isspace (rev a') = []" using True by (simp add: dropWhile_eq_Nil_conv)
      moreover have "dropWhile isspace (rev a' @ [c]) = [c]"
        using True nc by (simp add: dropWhile_append)
      ultimately show ?thesis using l r by simp
    next
      case False
      then have "dropWhile isspace (rev a' @ [c]) = dropWhile isspace (rev a') @ [c]"
        by (auto simp: dropWhile_append)
      then show ?thesis using l r by simp
    qed
  qed
next
  case False
  then have "\<not> ends_with (u ''$$'') cs"
    by (auto simp: ends_with_iff)
  then show ?thesis using False by (simp add: strip_trailing_dollars_def)
qed

lemma rmatch_trailing:
  assumes "10 \<notin> set s"
  shows "rmatch trailing_dollars (pv, s)
           = (if dropWhile isspace s = u ''$$'' then [(Some 36, [])] else [])"
proof -
  let ?g = "rmatch (Seq (Seq (Chr 36) (Chr 36)) Eos)"
  obtain pv' rest where r: "rmatch (Star (Cls isspace)) (pv, s) = (pv', dropWhile isspace s) # rest"
    and rest: "\<forall>st\<in>set rest. snd st \<noteq> [] \<and> isspace (hd (snd st))"
    using rmatch_ws_star [of isspace pv s] by blast
  have g0: "?g st = []" if "st \<in> set rest" for st
  proof -
    have ne: "snd st \<noteq> []" and hd: "isspace (hd (snd st))" using rest that by auto
    obtain x xs where sx: "snd st = x # xs" using ne by (cases "snd st") auto
    have "x \<noteq> 36" using hd sx not_space_dollar by auto
    then show ?thesis using sx by (simp add: Chr_def Eos_def)
  qed
  have c0: "concat (map ?g rest) = []" using g0 by simp
  have sub: "set (dropWhile isspace s) \<subseteq> set s" by (auto dest: set_dropWhileD)
  have gh: "?g (pv', dropWhile isspace s)
      = (if dropWhile isspace s = u ''$$'' then [(Some 36, [])] else [])"
  proof (cases "dropWhile isspace s")
    case Nil
    show ?thesis unfolding Nil by (simp add: Chr_def Eos_def dollars_lit)
  next
    case (Cons x xs)
    note d1 = Cons
    show ?thesis
    proof (cases xs)
      case Nil
      show ?thesis unfolding d1 Nil by (simp add: Chr_def Eos_def dollars_lit)
    next
      case (Cons y ys)
      have "ys \<noteq> [10]" using sub d1 Cons assms by auto
      then show ?thesis unfolding d1 Cons by (auto simp: Chr_def Eos_def dollars_lit)
    qed
  qed
  have "rmatch trailing_dollars (pv, s)
      = concat (map ?g (rmatch (Star (Cls isspace)) (pv, s)))"
    by (simp add: trailing_dollars_def ws_star_def Str_def dollars_lit)
  then show ?thesis using r c0 gh by simp
qed

lemma rmatch_leading:
  "rmatch leading_dollars (pv, s)
     = (if pv = None \<and> starts_with (u ''$$'') s
        then rmatch (Star (Cls isspace)) (Some 36, drop 2 s) else [])"
proof (cases s)
  case Nil
  then show ?thesis
    by (cases pv)
      (auto simp: leading_dollars_def Bos_def Str_def Chr_def dollars_lit starts_with_def ws_star_def)
next
  case (Cons x xs)
  note s1 = Cons
  show ?thesis
  proof (cases xs)
    case Nil
    then show ?thesis using s1
      by (cases pv)
        (auto simp: leading_dollars_def Bos_def Str_def Chr_def dollars_lit starts_with_def
          ws_star_def)
  next
    case (Cons y ys)
    then show ?thesis using s1
      by (cases pv)
        (auto simp: leading_dollars_def Bos_def Str_def Chr_def dollars_lit starts_with_def
          ws_star_def)
  qed
qed

lemma match_at_dollars_rest:
  assumes "pv \<noteq> None \<or> \<not> starts_with (u ''$$'') s" "10 \<notin> set s"
  shows "match_at dollar_wrappers pv s
           = (if dropWhile isspace s = u ''$$'' then Some (length s, s) else None)"
proof -
  have "rmatch leading_dollars (pv, s) = []"
    using assms(1) by (auto simp: rmatch_leading)
  then have "rmatch dollar_wrappers (pv, s)
      = (if dropWhile isspace s = u ''$$'' then [(Some 36, [])] else [])"
    using rmatch_trailing [OF assms(2), of pv] by (simp add: dollar_wrappers_def)
  then show ?thesis by (simp add: match_at_def)
qed

lemma match_at_dollars_start:
  assumes "starts_with (u ''$$'') s"
  shows "\<exists>m. match_at dollar_wrappers None s
           = Some (2 + length (takeWhile isspace (drop 2 s)), m)"
proof -
  obtain pv' rest where
    r: "rmatch (Star (Cls isspace)) (Some 36, drop 2 s) = (pv', dropWhile isspace (drop 2 s)) # rest"
    using rmatch_ws_star [of isspace "Some 36" "drop 2 s"] by blast
  have "rmatch dollar_wrappers (None, s)
     = ((pv', dropWhile isspace (drop 2 s)) # rest) @ rmatch trailing_dollars (None, s)"
    using assms r by (simp add: dollar_wrappers_def rmatch_leading)
  moreover have "length s - length (dropWhile isspace (drop 2 s))
      = 2 + length (takeWhile isspace (drop 2 s))"
  proof -
    have "length (take (length (u ''$$'')) s) = length (u ''$$'')"
      using assms by (simp only: starts_with_def)
    then have l2: "2 \<le> length s" by (simp add: dollars_lit)
    have "length (drop 2 s) = length (takeWhile isspace (drop 2 s)) + length (dropWhile isspace (drop 2 s))"
      by (metis length_append takeWhile_dropWhile_id)
    then show ?thesis using l2 by simp
  qed
  ultimately show ?thesis by (simp add: match_at_def)
qed

lemma strip_trailing_Nil: "strip_trailing_dollars [] = []"
  by (simp add: strip_trailing_dollars_def ends_with_def starts_with_def dollars_lit)

lemma sub_dollars_rest:
  "pv \<noteq> None \<or> \<not> starts_with (u ''$$'') s \<Longrightarrow> 10 \<notin> set s \<Longrightarrow>
   concat (map (case_sum (\<lambda>c. [c]) (\<lambda>m. [])) (scan (match_at dollar_wrappers) 0 pv s))
     = strip_trailing_dollars s"
proof (induction s arbitrary: pv)
  case Nil
  have "match_at dollar_wrappers pv [] = None"
    using match_at_dollars_rest [of pv "[]"] Nil.prems by (simp add: dollars_lit)
  then show ?case by (simp add: scan_Nil_None strip_trailing_Nil)
next
  case (Cons c cs)
  have m: "match_at dollar_wrappers pv (c # cs)
      = (if dropWhile isspace (c # cs) = u ''$$'' then Some (length (c # cs), c # cs) else None)"
    using match_at_dollars_rest [OF Cons.prems] .
  show ?case
  proof (cases "dropWhile isspace (c # cs) = u ''$$''")
    case True
    have m1: "match_at dollar_wrappers pv (c # cs) = Some (Suc (length cs), c # cs)"
      using m True by simp
    obtain pv' where sk: "scan (match_at dollar_wrappers) (length cs) (Some c) cs
        = scan (match_at dollar_wrappers) 0 pv' (drop (length cs) cs)"
      and pv': "0 < length cs \<longrightarrow> pv' \<noteq> None" "length cs = 0 \<longrightarrow> pv' = Some c"
      using scan_skip [of "length cs" cs "match_at dollar_wrappers" "Some c"] by auto
    have "pv' \<noteq> None" using pv' by (cases "length cs = 0") auto
    then have "match_at dollar_wrappers pv' [] = None"
      using match_at_dollars_rest [of pv' "[]"] by (simp add: dollars_lit)
    then have e: "scan (match_at dollar_wrappers) (length cs) (Some c) cs = []"
      using sk by (simp add: scan_Nil_None)
    have "scan (match_at dollar_wrappers) 0 pv (c # cs) = [Inr (c # cs)]"
      using scan_Cons_Some [of "match_at dollar_wrappers" pv c cs, OF m1] e by simp
    then show ?thesis using strip_trailing_all [OF True] by simp
  next
    case False
    have m0: "match_at dollar_wrappers pv (c # cs) = None" using m False by simp
    have ih: "concat (map (case_sum (\<lambda>c. [c]) (\<lambda>m. []))
        (scan (match_at dollar_wrappers) 0 (Some c) cs)) = strip_trailing_dollars cs"
      using Cons.IH [of "Some c"] Cons.prems(2) by simp
    show ?thesis
      using scan_Cons_None [of "match_at dollar_wrappers" pv c cs, OF m0] ih
        strip_trailing_step [OF False] by simp
  qed
qed

lemma re_sub_dollars:
  assumes "10 \<notin> set s"
  shows "re_sub dollar_wrappers [] s = strip_trailing_dollars (strip_leading_dollars s)"
proof (cases "starts_with (u ''$$'') s")
  case False
  then show ?thesis
    using sub_dollars_rest [of None s] assms by (simp add: re_sub_def strip_leading_dollars_def)
next
  case True
  then obtain t where s: "s = 36 # 36 # t"
    by (cases s; cases "tl s") (auto simp: starts_with_def dollars_lit)
  let ?j = "length (takeWhile isspace t)"
  obtain m where m: "match_at dollar_wrappers None (36 # 36 # t) = Some (2 + ?j, m)"
    using match_at_dollars_start [OF True] s by auto
  have j: "Suc ?j \<le> length (36 # t)" using length_takeWhile_le [of isspace t] by simp
  obtain pv' where sk: "scan (match_at dollar_wrappers) (Suc ?j) (Some 36) (36 # t)
        = scan (match_at dollar_wrappers) 0 pv' (drop (Suc ?j) (36 # t))"
      and pv': "pv' \<noteq> None"
    using scan_skip [OF j, of "match_at dollar_wrappers" "Some 36"] by auto
  have d: "drop (Suc ?j) (36 # t) = dropWhile isspace t" by (simp add: dropWhile_eq_drop)
  have n10: "10 \<notin> set (dropWhile isspace t)" using assms s by (auto dest: set_dropWhileD)
  have "scan (match_at dollar_wrappers) 0 None (36 # 36 # t)
      = Inr m # scan (match_at dollar_wrappers) 0 pv' (dropWhile isspace t)"
    using scan_Cons_Some [of "match_at dollar_wrappers" None 36 "36 # t", OF m] sk d by simp
  then have "re_sub dollar_wrappers [] s = strip_trailing_dollars (dropWhile isspace t)"
    using sub_dollars_rest [of pv' "dropWhile isspace t"] pv' n10 by (simp add: re_sub_def s)
  then show ?thesis using True s by (simp add: strip_leading_dollars_def)
qed

lemma clean_expression_spec: "clean_expression expr = spec_clean_expression expr"
proof -
  have "10 \<notin> set (collapse_ws (strip expr))"
    using collapse_ws_spaces [of 10 "strip expr"] by (auto simp: isspace_def)
  then show ?thesis
    by (simp add: clean_expression_def spec_clean_expression_def re_sub_ws_run re_sub_dollars)
qed

lemma extract_dollars:
  "extract_expressions rt (u ''$$ x + y = z $$'') = [u ''x + y = z'']"
  unfolding extract_expressions_def collect_dollars
  by (simp add: list_of_set_def sort_desc_def)

text \<open>
  Claim C6. \<open>clean_expression\<close> computes what the specification describes: the trimmed
  string with every whitespace run collapsed to one space, one leading and one trailing
  \<open>$$\<close> delimiter stripped, and the multiplication and division signs replaced by \<open>*\<close>
  and \<open>/\<close>. On the text \<open>$$ x + y = z $$\<close>, \<open>extract_expressions\<close> returns the single
  expression \<open>x + y = z\<close>.
\<close>

theorem clean_expression_refines:
  "clean_expression expr = spec_clean_expression expr
   \<and> extract_expressions rt (u ''$$ x + y = z $$'') = [u ''x + y = z'']"
  using clean_expression_spec extract_dollars by blast

section \<open>The summary: budget and short texts\<close>

lemma slice_to_length: "0 \<le> j \<Longrightarrow> length (slice_to s j) \<le> nat j"
  by (auto simp: slice_to_def slice_index_def)

lemma truncate_length: "3 \<le> m \<Longrightarrow> int (length (truncate s m)) \<le> m"
  using slice_to_length [of "m - 3" s] by (simp add: truncate_def u_def)

lemma create_budget:
  assumes "3 \<le> max_length"
  shows "int (length (create_comprehensive_summary summaries key_points facts max_length)) \<le> max_length"
  using truncate_length [OF assms]
  by (simp add: create_comprehensive_summary_def Let_def)

lemma generate_summary_cases:
  assumes "3 \<le> max_length"
  shows "generate_summary rt model_opt text max_length min_length = too_short_message
     \<or> generate_summary rt model_opt text max_length min_length
         = comprehensive_fallback_summary rt text max_length
     \<or> int (length (generate_summary rt model_opt text max_length min_length)) \<le> max_length"
  using create_budget [OF assms]
  by (auto simp: generate_summary_def Let_def split: option.splits sum.splits prod.splits)

lemma fallback_truncated:
  assumes "3 \<le> max_length" "qualifying_sentences text \<noteq> []"
    "select_sentences rt max_length 0 (ranked_sentences rt text) = []"
  shows "int (length (comprehensive_fallback_summary rt text max_length)) \<le> max_length"
  using assms truncate_length [OF assms(1)]
  by (simp add: comprehensive_fallback_summary_def Let_def)

lemma fallback_unable:
  "qualifying_sentences text = [] \<Longrightarrow> comprehensive_fallback_summary rt text max_length = unable_message"
  by (simp add: comprehensive_fallback_summary_def)

lemma message_lengths: "length too_short_message = 44 \<and> length unable_message = 50"
  by (simp add: too_short_message_def unable_message_def u_def)

lemma qualifying_long: "qualifying_sentences long_sentence = [long_sentence]"
  by (simp add: long_sentence_def qualifying_sentences_def sentence_end_def re_defs char_defs
      strip_def split_ws_def one_of_def)

lemma ranked_long: "ranked_sentences rt long_sentence = [long_sentence]"
  by (simp add: ranked_sentences_def qualifying_long sort_desc_def)

lemma select_long: "select_sentences plain_rt 10 0 [long_sentence] = []"
  by (simp add: long_sentence_def plain_rt_def u_def)

lemma clean_empty: "clean_text_for_summarization rt [] = []"
  by (simp add: clean_text_for_summarization_def re_defs ws_run_def math_span_def noise_def
      split_char_def strip_def split_ws_def u_def)

lemma summary_empty_loaded: "generate_summary rt (Some model) [] max_length min_length = too_short_message"
  by (simp add: generate_summary_def clean_empty split_ws_def)

lemma qualifying_empty: "qualifying_sentences [] = []"
  by (simp add: qualifying_sentences_def sentence_end_def re_defs strip_def one_of_def)

lemma summary_empty_unloaded: "generate_summary rt None [] max_length min_length = unable_message"
  by (simp add: generate_summary_def fallback_unable qualifying_empty)

lemma words_short30: "length (split_ws short30) = 30"
  by (simp add: short30_def split_ws_def char_defs)

lemma clean_short30: "clean_text_for_summarization rt short30 = short30"
  by (simp add: short30_def clean_text_for_summarization_def re_defs ws_run_def math_span_def
      noise_def split_char_def strip_def split_ws_def char_defs one_of_def Let_def)

lemma qualifying_short30: "qualifying_sentences short30 = []"
  by (simp add: short30_def qualifying_sentences_def sentence_end_def re_defs char_defs
      strip_def split_ws_def one_of_def)

text \<open>
  Claim C1, amended. For \<open>max_length \<ge> 10\<close>: what \<open>create_comprehensive_summary\<close>
  returns is at most \<open>max_length\<close> long; \<open>generate_summary\<close> returns the too-short
  message, or the fallback summary, or a string at most \<open>max_length\<close> long; the fallback
  summary is at most \<open>max_length\<close> long when a sentence qualifies and none is chosen (the
  first sentence, truncated), and is the literal message when no sentence qualifies. The
  two messages have 44 and 50 characters whatever \<open>max_length\<close> is.
\<close>

theorem summary_budget:
  "10 \<le> max_length \<Longrightarrow>
     int (length (create_comprehensive_summary summaries key_points facts max_length))
       \<le> max_length
   \<and> (generate_summary rt model_opt text max_length min_length = too_short_message
      \<or> generate_summary rt model_opt text max_length min_length
          = comprehensive_fallback_summary rt text max_length
      \<or> int (length (generate_summary rt model_opt text max_length min_length)) \<le> max_length)
   \<and> (qualifying_sentences text \<noteq> []
        \<and> select_sentences rt max_length 0 (ranked_sentences rt text) = []
      \<longrightarrow> int (length (comprehensive_fallback_summary rt text max_length)) \<le> max_length)
   \<and> (qualifying_sentences text = []
      \<longrightarrow> comprehensive_fallback_summary rt text max_length = unable_message)
   \<and> length too_short_message = 44 \<and> length unable_message = 50"
proof -
  assume "10 \<le> max_length"
  then have m: "3 \<le> max_length" by simp
  show ?thesis
    using create_budget [OF m] generate_summary_cases [OF m] fallback_truncated [OF m]
      fallback_unable message_lengths
    by blast
qed

theorem summary_budget_witness:
  "int (length (create_comprehensive_summary [long_sentence] [] [] 10)) \<le> 10
   \<and> int (length (comprehensive_fallback_summary plain_rt long_sentence 10)) \<le> 10"
proof -
  have h: "(10::int) \<le> 10" by simp
  have q: "qualifying_sentences long_sentence \<noteq> []" by (simp add: qualifying_long)
  have s: "select_sentences plain_rt 10 0 (ranked_sentences plain_rt long_sentence) = []"
    by (simp only: ranked_long select_long)
  show ?thesis
    using summary_budget [OF h, of "[long_sentence]" "[]" "[]" plain_rt None long_sentence 100]
      q s
    by blast
qed

text \<open>
  The claim as stated fails on the literal messages, which ignore the budget: with
  \<open>max_length = 10\<close> the empty text gives the 44 characters of the too-short message
  when the model is loaded, and the 50 characters of the other message when it is not.
\<close>

theorem literal_messages_counterexample:
  "(10::int) < int (length (generate_summary plain_rt (Some echo_model) [] 10 100))
   \<and> (10::int) < int (length (generate_summary plain_rt None [] 10 100))"
  by (simp add: summary_empty_loaded summary_empty_unloaded message_lengths)

text \<open>
  Claim C2, amended. When the model is loaded and the cleaned text has fewer than 50
  words, \<open>generate_summary\<close> returns the too-short message. When no model is loaded it
  returns the fallback summary, whatever the number of words.
\<close>

theorem too_short_rule:
  "(length (split_ws (clean_text_for_summarization rt text)) < 50
      \<longrightarrow> generate_summary rt (Some model) text max_length min_length = too_short_message)
   \<and> generate_summary rt None text max_length min_length
       = comprehensive_fallback_summary rt text max_length"
  by (simp add: generate_summary_def)

theorem too_short_rule_witness:
  "generate_summary plain_rt (Some echo_model) short30 300 150 = too_short_message
   \<and> generate_summary plain_rt None short30 300 150
       = comprehensive_fallback_summary plain_rt short30 300"
proof -
  have "length (split_ws (clean_text_for_summarization plain_rt short30)) < 50"
    by (simp add: clean_short30 words_short30)
  then show ?thesis
    using too_short_rule [of plain_rt short30 echo_model 300 150] by blast
qed

text \<open>
  The claim as stated fails without a model: a text of 30 words, all in sentences too
  short to qualify, gets the other literal message.
\<close>

theorem no_model_counterexample:
  "length (split_ws short30) = 30
   \<and> length (split_ws (clean_text_for_summarization plain_rt short30)) < 50
   \<and> generate_summary plain_rt None short30 300 150 = unable_message
   \<and> unable_message \<noteq> too_short_message"
proof -
  have "generate_summary plain_rt None short30 300 150 = unable_message"
    by (simp add: generate_summary_def fallback_unable qualifying_short30)
  moreover have "unable_message \<noteq> too_short_message"
    by (simp add: unable_message_def too_short_message_def u_def)
  ultimately show ?thesis by (simp add: clean_short30 words_short30)
qed

section \<open>Chunks\<close>

text \<open>
  The loop of \<open>split_text_into_chunks\<close> groups the sentences of the text exactly as
  \<open>group_runs\<close> does. Every string the loop holds is trimmed, so the calls of
  \<open>strip\<close> on the current chunk change nothing.
\<close>

lemma strip_trimmed: "trimmed s \<Longrightarrow> strip s = s"
proof -
  assume t: "trimmed s"
  then obtain c cs where s: "s = c # cs" by (cases s) (auto simp: trimmed_def)
  have a: "dropWhile isspace s = s" using t s by (simp add: trimmed_def)
  have "butlast s @ [last s] = s" using s by simp
  then have "rev s = rev (butlast s @ [last s])" by (simp only:)
  then have e: "rev s = last s # rev (butlast s)" by simp
  have "dropWhile isspace (last s # rev (butlast s)) = last s # rev (butlast s)"
    using t by (simp add: trimmed_def)
  then have "dropWhile isspace (rev s) = rev s" by (simp only: e)
  then show ?thesis using a by (simp add: strip_def)
qed

lemma trimmed_strip: "strip s \<noteq> [] \<Longrightarrow> trimmed (strip s)"
proof -
  assume ne: "strip s \<noteq> []"
  let ?d = "dropWhile isspace s" and ?r = "dropWhile isspace (rev (dropWhile isspace s))"
  have st: "strip s = rev ?r" by (simp add: strip_def)
  have rne: "?r \<noteq> []" using ne st by simp
  then have h: "\<not> isspace (hd ?r)" by (rule hd_dropWhile)
  have l: "last (strip s) = hd ?r" using st rne by (simp add: last_rev)
  have dne: "?d \<noteq> []"
  proof
    assume "?d = []"
    then have "?r = []" by (simp only: rev.simps dropWhile.simps)
    then show False using rne by simp
  qed
  then have hd: "\<not> isspace (hd ?d)" by (rule hd_dropWhile)
  obtain k where k: "?r = drop k (rev ?d)" by (metis dropWhile_eq_drop)
  have "rev ?r = take (length ?d - k) ?d" using k by (simp add: rev_drop)
  moreover have "0 < length ?d - k"
  proof -
    have "drop k (rev ?d) \<noteq> []" using rne k by (simp only: not_False_eq_True)
    then show ?thesis by simp
  qed
  ultimately have "hd (rev ?r) = hd ?d" by (metis hd_take)
  then show ?thesis using ne st h l hd by (simp add: trimmed_def)
qed

lemma join_snoc: "run \<noteq> [] \<Longrightarrow> join sep (run @ [s]) = join sep run @ sep @ s"
  by (induction sep run rule: join.induct) auto

lemma trimmed_append: "trimmed a \<Longrightarrow> trimmed b \<Longrightarrow> trimmed (a @ sep @ b)"
  by (auto simp: trimmed_def)

lemma trimmed_join: "run \<noteq> [] \<Longrightarrow> list_all trimmed run \<Longrightarrow> trimmed (join sep run)"
proof (induction sep run rule: join.induct)
  case (1 sep)
  then show ?case by simp
next
  case (2 sep x)
  then show ?case by simp
next
  case (3 sep x y ys)
  then show ?case using trimmed_append [of x "join sep (y # ys)" sep] by simp
qed

lemma chunk_step_add:
  "chunk_step bound st raw = (if strip raw = [] then st else add_sentence bound st (strip raw))"
  by (cases st) (simp add: chunk_step_def add_sentence_def Let_def)

lemma foldl_chunk_step:
  "foldl (chunk_step bound) st raws
     = foldl (add_sentence bound) st (filter (\<lambda>s. s \<noteq> []) (map strip raws))"
  by (induction raws arbitrary: st) (simp_all add: chunk_step_add)

lemma finish_group:
  assumes "list_all trimmed ss" "list_all trimmed run"
  shows "finish_chunks (foldl (add_sentence bound) (chunks, join (u ''. '') run) ss)
           = chunks @ map (join (u ''. '')) (group_runs bound run ss)"
  using assms
proof (induction ss arbitrary: chunks run)
  case Nil
  show ?case
  proof (cases "run = []")
    case True
    then show ?thesis by (simp add: finish_chunks_def strip_def)
  next
    case False
    then have "trimmed (join (u ''. '') run)" using Nil.prems(2) by (rule trimmed_join)
    then have "strip (join (u ''. '') run) = join (u ''. '') run" "join (u ''. '') run \<noteq> []"
      by (simp_all add: strip_trimmed trimmed_def)
    then show ?thesis using False by (simp add: finish_chunks_def)
  qed
next
  case (Cons s ss)
  have ts: "trimmed s" and tss: "list_all trimmed ss" using Cons.prems(1) by simp_all
  show ?case
  proof (cases "run = []")
    case True
    have "add_sentence bound (chunks, join (u ''. '') run) s = (chunks, join (u ''. '') [s])"
      using True by (simp add: add_sentence_def)
    then show ?thesis using Cons.IH [OF tss, of "[s]" chunks] ts True by simp
  next
    case False
    have tj: "trimmed (join (u ''. '') run)" using False Cons.prems(2) by (rule trimmed_join)
    then have sj: "strip (join (u ''. '') run) = join (u ''. '') run"
      and nj: "join (u ''. '') run \<noteq> []"
      by (simp_all add: strip_trimmed trimmed_def)
    show ?thesis
    proof (cases "bound < int (length (join (u ''. '') run) + length s)")
      case True
      have "add_sentence bound (chunks, join (u ''. '') run) s
          = (chunks @ [join (u ''. '') run], join (u ''. '') [s])"
        using True nj sj by (simp add: add_sentence_def)
      then show ?thesis
        using Cons.IH [OF tss, of "[s]" "chunks @ [join (u ''. '') run]"] ts True False by simp
    next
      case b: False
      have "add_sentence bound (chunks, join (u ''. '') run) s
          = (chunks, join (u ''. '') (run @ [s]))"
        using b nj False by (simp add: add_sentence_def join_snoc)
      then show ?thesis
        using Cons.IH [OF tss, of "run @ [s]" chunks] ts Cons.prems(2) b False by simp
    qed
  qed
qed

lemma sentences_trimmed: "list_all trimmed (sentences_of text)"
  by (auto simp: sentences_of_def list_all_iff trimmed_strip)

lemma chunks_group:
  "split_text_into_chunks text bound
     = map (join (u ''. '')) (group_runs bound [] (sentences_of text))"
proof -
  have "split_text_into_chunks text bound
      = finish_chunks (foldl (chunk_step bound) ([], []) (re_split sentence_end text))"
    by (simp add: split_text_into_chunks_def finish_chunks_def)
  also have "\<dots> = finish_chunks (foldl (add_sentence bound) ([], join (u ''. '') []) (sentences_of text))"
    by (simp add: foldl_chunk_step sentences_of_def)
  also have "\<dots> = [] @ map (join (u ''. '')) (group_runs bound [] (sentences_of text))"
    by (rule finish_group) (simp_all add: sentences_trimmed)
  finally show ?thesis by simp
qed

lemma concat_group_runs: "concat (group_runs bound run ss) = run @ ss"
  by (induction ss arbitrary: run) simp_all

lemma group_runs_nonempty: "[] \<notin> set (group_runs bound run ss)"
  by (induction ss arbitrary: run) auto

lemma scan_no_match:
  "(\<And>pv t. set t \<subseteq> set s \<Longrightarrow> mf pv t = None) \<Longrightarrow> scan mf 0 pv s = map Inl s"
proof (induction s arbitrary: pv)
  case Nil
  then show ?case by (simp add: scan_Nil_None)
next
  case (Cons c cs)
  have m: "mf pv (c # cs) = None" using Cons.prems [of "c # cs" pv] by simp
  have "scan mf 0 (Some c) cs = map Inl cs"
    using Cons.prems by (intro Cons.IH) auto
  then show ?case using scan_Cons_None [of mf pv c cs, OF m] by simp
qed


lemma group_runs_fit:
  "run = [] \<or> run_fits bound run \<Longrightarrow> list_all (run_fits bound) (group_runs bound run ss)"
proof (induction ss arbitrary: run)
  case Nil
  then show ?case by auto
next
  case (Cons s ss)
  have single: "run_fits bound [s]" by (simp add: run_fits_def)
  show ?case
  proof (cases "run \<noteq> [] \<and> bound < int (length (join (u ''. '') run) + length s)")
    case True
    then show ?thesis using Cons.prems Cons.IH [of "[s]"] single by simp
  next
    case False
    have "run_fits bound (run @ [s])"
    proof (cases "run = []")
      case True
      then show ?thesis using single by simp
    next
      case r: False
      then show ?thesis using False by (simp add: run_fits_def)
    qed
    then have "list_all (run_fits bound) (group_runs bound (run @ [s]) ss)"
      using Cons.IH [of "run @ [s]"] by simp
    moreover have "group_runs bound run (s # ss) = group_runs bound (run @ [s]) ss"
      using False by auto
    ultimately show ?thesis by (simp only:)
  qed
qed

lemma pieces_acc_Inl: "pieces_acc cur (map Inl s) = [rev cur @ s]"
  by (induction s arbitrary: cur) simp_all

lemma match_at_no_terminator:
  assumes "\<forall>c\<in>set t. c \<notin> set (u ''.!?'')"
  shows "match_at sentence_end pv t = None"
  using assms by (cases t) (simp_all add: match_at_def sentence_end_def Plus_def one_of_def)

lemma re_split_no_terminator:
  assumes "\<forall>c\<in>set s. c \<notin> set (u ''.!?'')"
  shows "re_split sentence_end s = [s]"
proof -
  have "scan (match_at sentence_end) 0 None s = map Inl s"
    using assms by (intro scan_no_match match_at_no_terminator) auto
  then show ?thesis by (simp add: re_split_def pieces_acc_Inl)
qed

lemma single_sentence_chunk:
  assumes "\<forall>c\<in>set s. c \<notin> set (u ''.!?'')" "trimmed s"
  shows "split_text_into_chunks s bound = [s]"
proof -
  have "sentences_of s = [s]"
    using assms by (simp add: sentences_of_def re_split_no_terminator strip_trimmed trimmed_def)
  then show ?thesis by (simp add: chunks_group)
qed

lemma sentences_four:
  "sentences_of four_sentences = map u [''One two'', ''Three four'', ''Five six'', ''Seven'']"
  by (simp add: sentences_of_def four_sentences_def summary_defs re_defs char_defs)

text \<open>
  Claim C4, amended. For every text and bound, the chunks of
  \<open>split_text_into_chunks\<close> are the runs of consecutive sentences joined by \<open>". "\<close>,
  where a new run starts exactly when the current chunk is not empty and its length plus the
  length of the next sentence exceeds the bound. The runs, in order, make up all the
  sentences of the text. Every run is a single sentence, or its last sentence was added to a
  chunk whose length plus the length of that sentence is at most the bound. A sentence is
  never split.
\<close>

theorem chunks_are_runs:
  "split_text_into_chunks text bound
     = map (join (u ''. '')) (group_runs bound [] (sentences_of text))
   \<and> concat (group_runs bound [] (sentences_of text)) = sentences_of text
   \<and> list_all (run_fits bound) (group_runs bound [] (sentences_of text))"
  by (simp add: chunks_group concat_group_runs group_runs_fit)

text \<open>The statement at a text of four sentences with the bound 20.\<close>

theorem chunks_are_runs_witness:
  "split_text_into_chunks four_sentences 20 = map u [''One two. Three four'', ''Five six. Seven'']
   \<and> group_runs 20 [] (sentences_of four_sentences)
       = [map u [''One two'', ''Three four''], map u [''Five six'', ''Seven'']]"
  using chunks_are_runs [of four_sentences 20] by (simp add: sentences_four u_def)

text \<open>
  The claim as stated fails for a sentence longer than the bound: it is a chunk by itself.
  A text of 801 letters and no terminator, with the bound 800, gives one chunk of 801
  characters.
\<close>

theorem long_sentence_counterexample:
  "split_text_into_chunks long_word 800 = [long_word] \<and> length long_word = 801"
proof -
  have "\<forall>c\<in>set long_word. c \<notin> set (u ''.!?'')"
    by (simp add: long_word_def ch_def u_def)
  moreover have "trimmed long_word"
    by (simp add: long_word_def trimmed_def ch_def isspace_def)
  ultimately have "split_text_into_chunks long_word 800 = [long_word]"
    by (rule single_sentence_chunk)
  then show ?thesis by (simp add: long_word_def)
qed

end
